theory Spec2Isabelle
  imports Complex_Main "HOL-Library.FSet" "HOL-Library.Multiset" "HOL-Library.Sublist"
begin

section \<open>Values, effects and the environment\<close>

text \<open>
  A queued item is an arbitrary JavaScript value. The code tests it only against
  \<^verbatim>\<open>null\<close> (\<^verbatim>\<open>item == null\<close> in \<^verbatim>\<open>WorkerPool.workerLoop\<close>, which
  \<^verbatim>\<open>undefined\<close> passes as well), so the model keeps those two values apart from
  every other payload.
\<close>

datatype 'a jsval = Null | Undefined | Val 'a

text \<open>
  The identifier of a processing slot is the number \<^verbatim>\<open>Date.now() + Math.random()\<close>.
  The code uses it only as a member of the \<^verbatim>\<open>Set\<close> \<^verbatim>\<open>processing\<close> (add, delete, size),
  so the model takes it from the environment as an opaque value and never computes it.
\<close>

type_synonym token = nat

text \<open>
  Every call of the injected collaborators is recorded, in order: the six methods of
  \<^verbatim>\<open>this.metrics\<close>, the calls of \<^verbatim>\<open>logger\<close>, and the call of \<^verbatim>\<open>this.processor\<close>.
\<close>

datatype 'a event =
    IncReceived
  | IncProcessed
  | IncTooMany
  | SetQueueLength int
  | ObserveQueueTime int
  | ObserveProcessingTime int
  | LogOverload "'a jsval"
  | LogEnqueued "'a jsval"
  | LogDequeued "'a jsval"
  | ProcessorCalled "'a jsval"
  | LogProcessed "'a jsval"
  | LogProcessingError "'a jsval"
  | LogPoolDisabled
  | LogPoolAlreadyRunning
  | LogPoolStarting int
  | LogWorkerError

text \<open>
  One turn of the loop in \<^verbatim>\<open>_scheduleProcessing\<close> reads the clock in \<^verbatim>\<open>dequeue\<close>,
  builds the slot identifier, and reads the clock again at the head of
  \<^verbatim>\<open>processItem\<close>. The environment supplies the three values for each turn.
\<close>

record tick =
  deq_now :: int
  slot_id :: token
  start_now :: int

datatype error = QueueOverloadedError

datatype outcome = Fulfilled | Rejected

section \<open>The queue (\<^verbatim>\<open>services/queue.js\<close>)\<close>

record 'a entry =
  item :: "'a jsval"
  enqueuedAt :: int

text \<open>
  A promise chain \<^verbatim>\<open>this.processItem(item).catch(...).finally(...)\<close> created by the
  dispatch loop and not yet finished: the slot identifier its \<^verbatim>\<open>finally\<close> callback
  closes over, the item, the start time read by \<^verbatim>\<open>processItem\<close>, and whether the
  processor's promise has already settled (the body of \<^verbatim>\<open>processItem\<close> has run to its
  end and only the \<^verbatim>\<open>finally\<close> callback is still to come).
\<close>

record 'a invocation =
  inv_id :: token
  inv_item :: "'a jsval"
  startTime :: int
  settled :: bool

text \<open>
  The fields of a \<^verbatim>\<open>WebhookQueue\<close>: \<^verbatim>\<open>queue\<close>, \<^verbatim>\<open>processing\<close>, \<^verbatim>\<open>concurrency\<close>,
  \<^verbatim>\<open>threshold\<close>; whether the method slot \<^verbatim>\<open>processNext\<close> has been overwritten with a
  no-op (\<^verbatim>\<open>WorkerPool\<close> does that); the promise chains of the dispatch loop that are
  still open; and the calls made so far. The limits are integers: both come from
  \<^verbatim>\<open>parseInt\<close>, and a value that is not a number is outside the model.
\<close>

record 'a webhook_queue =
  queue :: "'a entry list"
  processing :: "token fset"
  concurrency :: int
  threshold :: int
  processNext_noop :: bool
  invocations :: "'a invocation list"
  calls :: "'a event list"

definition emit :: "'a event \<Rightarrow> 'a webhook_queue \<Rightarrow> 'a webhook_queue" where
  "emit e s = s\<lparr>calls := calls s @ [e]\<rparr>"

definition new_queue :: "int \<Rightarrow> int \<Rightarrow> 'a webhook_queue" where
  "new_queue c t =
     \<lparr>queue = [], processing = {||}, concurrency = c, threshold = t,
      processNext_noop = False, invocations = [], calls = []\<rparr>"

definition size_q :: "'a webhook_queue \<Rightarrow> int" where
  "size_q s = int (length (queue s)) + int (fcard (processing s))"

definition totalItems :: "'a webhook_queue \<Rightarrow> int" where
  "totalItems s = int (length (queue s)) + int (fcard (processing s))"

definition dequeue :: "int \<Rightarrow> 'a webhook_queue \<Rightarrow> 'a jsval \<times> 'a webhook_queue" where
  "dequeue now s =
     (case queue s of
        [] \<Rightarrow> (Null, s)
      | e # rest \<Rightarrow>
          (let delta = now - enqueuedAt e;
               s1 = s\<lparr>queue := rest\<rparr>;
               s2 = emit (ObserveQueueTime delta) s1;
               s3 = emit (SetQueueLength (totalItems s2)) s2;
               s4 = emit (LogDequeued (item e)) s3
           in (item e, s4)))"

text \<open>
  The synchronous part of \<^verbatim>\<open>processItem\<close>: it reads the clock, calls the processor and
  suspends at \<^verbatim>\<open>await\<close>.
\<close>

definition processItem_begin :: "'a jsval \<Rightarrow> 'a webhook_queue \<Rightarrow> 'a webhook_queue" where
  "processItem_begin it s = emit (ProcessorCalled it) s"

text \<open>
  The rest of \<^verbatim>\<open>processItem\<close>, run when the processor's promise settles: on success the
  two metrics and the log line, on failure the log line and the rethrow.
\<close>

definition processItem_end ::
  "'a jsval \<Rightarrow> int \<Rightarrow> outcome \<Rightarrow> int \<Rightarrow> 'a webhook_queue \<Rightarrow> outcome \<times> 'a webhook_queue" where
  "processItem_end it start out now s =
     (case out of
        Fulfilled \<Rightarrow>
          (let processingTime = now - start;
               s1 = emit IncProcessed s;
               s2 = emit (ObserveProcessingTime processingTime) s1;
               s3 = emit (LogProcessed it) s2
           in (Fulfilled, s3))
      | Rejected \<Rightarrow> (Rejected, emit (LogProcessingError it) s))"

text \<open>One turn of the \<^verbatim>\<open>while\<close> loop of \<^verbatim>\<open>_scheduleProcessing\<close>.\<close>

definition schedule_turn :: "tick \<Rightarrow> 'a webhook_queue \<Rightarrow> 'a webhook_queue" where
  "schedule_turn tk s =
     (case dequeue (deq_now tk) s of
        (it, s1) \<Rightarrow>
          (let s2 = s1\<lparr>processing := finsert (slot_id tk) (processing s1)\<rparr>;
               s3 = emit (SetQueueLength (totalItems s2)) s2;
               s4 = processItem_begin it s3
           in s4\<lparr>invocations := invocations s4 @
                  [\<lparr>inv_id = slot_id tk, inv_item = it,
                    startTime = start_now tk, settled = False\<rparr>]\<rparr>))"

definition schedule_guard :: "'a webhook_queue \<Rightarrow> bool" where
  "schedule_guard s \<longleftrightarrow> int (fcard (processing s)) < concurrency s \<and> 0 < length (queue s)"

function scheduleProcessing :: "(nat \<Rightarrow> tick) \<Rightarrow> 'a webhook_queue \<Rightarrow> 'a webhook_queue" where
  "scheduleProcessing env s =
     (if schedule_guard s then scheduleProcessing (\<lambda>n. env (Suc n)) (schedule_turn (env 0) s) else s)"
  by pat_completeness auto
termination
  by (relation "measure (\<lambda>(env, s). length (queue s))")
    (auto simp: schedule_guard_def schedule_turn_def dequeue_def emit_def
      processItem_begin_def Let_def split: list.splits)

declare scheduleProcessing.simps [simp del]

text \<open>
  The states in which the loop of \<^verbatim>\<open>_scheduleProcessing\<close> enters its body, in order:
  one for each processor invocation the call starts.
\<close>

function schedule_states :: "(nat \<Rightarrow> tick) \<Rightarrow> 'a webhook_queue \<Rightarrow> 'a webhook_queue list" where
  "schedule_states env s =
     (if schedule_guard s
      then s # schedule_states (\<lambda>n. env (Suc n)) (schedule_turn (env 0) s) else [])"
  by pat_completeness auto
termination
  by (relation "measure (\<lambda>(env, s). length (queue s))")
    (auto simp: schedule_guard_def schedule_turn_def dequeue_def emit_def
      processItem_begin_def Let_def split: list.splits)

declare schedule_states.simps [simp del]

definition processNext :: "(nat \<Rightarrow> tick) \<Rightarrow> 'a webhook_queue \<Rightarrow> 'a webhook_queue" where
  "processNext env s = (if processNext_noop s then s else scheduleProcessing env s)"

text \<open>
  \<^verbatim>\<open>enqueue\<close> has no \<^verbatim>\<open>await\<close>: the whole body runs at the call. \<^verbatim>\<open>admit\<close> is the
  part between the admission check and the call of \<^verbatim>\<open>_scheduleProcessing\<close>.
\<close>

definition over_threshold :: "'a webhook_queue \<Rightarrow> bool" where
  "over_threshold s \<longleftrightarrow> threshold s \<le> int (length (queue s)) + int (fcard (processing s)) + 1"

definition admit :: "'a jsval \<Rightarrow> int \<Rightarrow> 'a webhook_queue \<Rightarrow> 'a webhook_queue" where
  "admit it now s =
     (let s2 = s\<lparr>queue := queue s @ [\<lparr>item = it, enqueuedAt = now\<rparr>]\<rparr>;
          s3 = emit (SetQueueLength (totalItems s2)) s2
      in emit (LogEnqueued it) s3)"

definition enqueue ::
  "'a jsval \<Rightarrow> int \<Rightarrow> (nat \<Rightarrow> tick) \<Rightarrow> 'a webhook_queue \<Rightarrow> (error + unit) \<times> 'a webhook_queue" where
  "enqueue it now env s =
     (let s1 = emit IncReceived s in
      if over_threshold s1
      then (Inl QueueOverloadedError, emit IncTooMany (emit (LogOverload it) s1))
      else (Inr (), scheduleProcessing env (admit it now s1)))"

text \<open>
  The processor's promise of the \<open>k\<close>-th open chain settles and the rest of
  \<^verbatim>\<open>processItem\<close> runs; \<^verbatim>\<open>.catch(() => {})\<close> then swallows a rejection. The
  \<^verbatim>\<open>finally\<close> callback runs in a later microtask, so it is a step of its own.
\<close>

definition settle :: "nat \<Rightarrow> outcome \<Rightarrow> int \<Rightarrow> 'a webhook_queue \<Rightarrow> 'a webhook_queue" where
  "settle k out now s =
     (if k < length (invocations s) \<and> \<not> settled (invocations s ! k)
      then
        (let inv = invocations s ! k;
             s1 = snd (processItem_end (inv_item inv) (startTime inv) out now s)
         in s1\<lparr>invocations := (invocations s1)[k := inv\<lparr>settled := True\<rparr>]\<rparr>)
      else s)"

text \<open>
  The \<^verbatim>\<open>finally\<close> callback of the \<open>k\<close>-th open chain: \<^verbatim>\<open>release\<close> is
  \<^verbatim>\<open>this.processing.delete(id)\<close> and the depth metric, after which the callback calls
  \<^verbatim>\<open>_scheduleProcessing\<close>.
\<close>

definition release :: "nat \<Rightarrow> 'a webhook_queue \<Rightarrow> 'a webhook_queue" where
  "release k s =
     (let inv = invocations s ! k;
          s1 = s\<lparr>invocations := take k (invocations s) @ drop (Suc k) (invocations s)\<rparr>;
          s2 = s1\<lparr>processing := processing s1 |-| {|inv_id inv|}\<rparr>
      in emit (SetQueueLength (totalItems s2)) s2)"

definition finalize :: "nat \<Rightarrow> (nat \<Rightarrow> tick) \<Rightarrow> 'a webhook_queue \<Rightarrow> 'a webhook_queue" where
  "finalize k env s =
     (if k < length (invocations s) \<and> settled (invocations s ! k)
      then scheduleProcessing env (release k s)
      else s)"

text \<open>
  \<^verbatim>\<open>drain\<close>: resolved at once when nothing is queued or processing, otherwise an interval
  timer whose callback \<^verbatim>\<open>checkQueue\<close> resolves the promise at the first tick that finds
  both empty.
\<close>

datatype drain_promise = DrainResolved | DrainPending

definition idle :: "'a webhook_queue \<Rightarrow> bool" where
  "idle s \<longleftrightarrow> length (queue s) = 0 \<and> fcard (processing s) = 0"

definition drain :: "'a webhook_queue \<Rightarrow> drain_promise" where
  "drain s = (if idle s then DrainResolved else DrainPending)"

definition checkQueue :: "'a webhook_queue \<Rightarrow> drain_promise \<Rightarrow> drain_promise" where
  "checkQueue s d = (if d = DrainPending \<and> idle s then DrainResolved else d)"

section \<open>The worker pool (\<^verbatim>\<open>services/workerPool.js\<close>)\<close>

text \<open>
  Where a worker loop stands: waiting for \<^verbatim>\<open>sleep(100)\<close>, waiting for
  \<^verbatim>\<open>queue.processItem(item)\<close> (with the item and the start time \<^verbatim>\<open>processItem\<close> read),
  about to continue after \<^verbatim>\<open>processItem\<close> settled, or returned.
\<close>

datatype 'a worker = Sleeping | Busy "'a jsval" int | Resuming outcome | Finished

text \<open>
  \<^verbatim>\<open>_originalProcessNext\<close> is \<open>None\<close> while the field is unset; when set it holds the
  method the constructor found in the queue's \<^verbatim>\<open>processNext\<close> slot.
\<close>

record 'a worker_pool =
  pool_concurrency :: int
  workers :: "'a worker list"
  running :: bool
  originalProcessNext :: "bool option"

type_synonym 'a system = "'a worker_pool \<times> 'a webhook_queue"

definition new_WorkerPool :: "int \<Rightarrow> bool \<Rightarrow> 'a webhook_queue \<Rightarrow> 'a system" where
  "new_WorkerPool c disableQueueProcessing q =
     (let p = \<lparr>pool_concurrency = c, workers = [], running = False,
                originalProcessNext = None\<rparr>
      in if disableQueueProcessing
         then (p\<lparr>originalProcessNext := Some (processNext_noop q)\<rparr>,
               emit LogPoolDisabled (q\<lparr>processNext_noop := True\<rparr>))
         else (p, q))"

text \<open>
  One pass of \<^verbatim>\<open>workerLoop\<close> from the loop test to the next \<^verbatim>\<open>await\<close>.
\<close>

definition workerLoop_head ::
  "int \<Rightarrow> int \<Rightarrow> 'a worker_pool \<Rightarrow> 'a webhook_queue \<Rightarrow> 'a worker \<times> 'a webhook_queue" where
  "workerLoop_head tdeq tstart p q =
     (if \<not> running p then (Finished, q)
      else
        (case dequeue tdeq q of
           (it, q1) \<Rightarrow>
             if it = Null \<or> it = Undefined then (Sleeping, q1)
             else (Busy it tstart, processItem_begin it q1)))"

fun start_loop :: "nat \<Rightarrow> (nat \<Rightarrow> int \<times> int) \<Rightarrow> 'a system \<Rightarrow> 'a system" where
  "start_loop 0 env (p, q) = (p, q)"
| "start_loop (Suc n) env (p, q) =
     (case workerLoop_head (fst (env 0)) (snd (env 0)) p q of
        (w, q1) \<Rightarrow> start_loop n (\<lambda>n. env (Suc n)) (p\<lparr>workers := workers p @ [w]\<rparr>, q1))"

definition start :: "(nat \<Rightarrow> int \<times> int) \<Rightarrow> 'a system \<Rightarrow> 'a system" where
  "start env sys =
     (case sys of
        (p, q) \<Rightarrow>
          if running p then (p, emit LogPoolAlreadyRunning q)
          else start_loop (nat (pool_concurrency p)) env
                 (p\<lparr>running := True\<rparr>, emit (LogPoolStarting (pool_concurrency p)) q))"

definition worker_wake :: "nat \<Rightarrow> int \<Rightarrow> int \<Rightarrow> 'a system \<Rightarrow> 'a system" where
  "worker_wake i tdeq tstart sys =
     (case sys of
        (p, q) \<Rightarrow>
          if i < length (workers p) \<and> workers p ! i = Sleeping
          then (case workerLoop_head tdeq tstart p q of
                  (w, q1) \<Rightarrow> (p\<lparr>workers := (workers p)[i := w]\<rparr>, q1))
          else (p, q))"

definition worker_settle :: "nat \<Rightarrow> outcome \<Rightarrow> int \<Rightarrow> 'a system \<Rightarrow> 'a system" where
  "worker_settle i out now sys =
     (case sys of
        (p, q) \<Rightarrow>
          if i < length (workers p)
          then (case workers p ! i of
                  Busy it st \<Rightarrow>
                    (case processItem_end it st out now q of
                       (r, q1) \<Rightarrow> (p\<lparr>workers := (workers p)[i := Resuming r]\<rparr>, q1))
                | _ \<Rightarrow> (p, q))
          else (p, q))"

definition worker_resume :: "nat \<Rightarrow> int \<Rightarrow> int \<Rightarrow> 'a system \<Rightarrow> 'a system" where
  "worker_resume i tdeq tstart sys =
     (case sys of
        (p, q) \<Rightarrow>
          if i < length (workers p)
          then (case workers p ! i of
                  Resuming r \<Rightarrow>
                    (let q0 = (if r = Rejected then emit LogWorkerError q else q)
                     in case workerLoop_head tdeq tstart p q0 of
                          (w, q1) \<Rightarrow> (p\<lparr>workers := (workers p)[i := w]\<rparr>, q1))
                | _ \<Rightarrow> (p, q))
          else (p, q))"

section \<open>The retrying processor (\<^verbatim>\<open>services/processor.js\<close>)\<close>

text \<open>
  What \<^verbatim>\<open>processWithRetry\<close> does, in order: a timer it waited for, a call of
  \<^verbatim>\<open>attemptProcessing\<close>, and its log lines.
\<close>

datatype 'a proc_event =
    Waited int
  | Attempted
  | LogAttemptFailed "'a jsval"
  | LogRetrying "'a jsval"
  | LogFailedAfterRetry "'a jsval"

datatype proc_error = ProcessingFailed

text \<open>
  \<^verbatim>\<open>simulateProcessingDelay\<close> waits for a timer whose length it computes in floating
  point from \<^verbatim>\<open>Math.random()\<close>; the model takes the length from the environment. The
  promise cannot reject.
\<close>

definition simulateProcessingDelay :: "int \<Rightarrow> 'a proc_event list" where
  "simulateProcessingDelay d = [Waited d]"

text \<open>
  \<^verbatim>\<open>attemptProcessing\<close> rejects when \<^verbatim>\<open>Math.random() < 0.1\<close>. Both sides are doubles and
  the comparison of two doubles is exact, so the draw is a rational number and
  \<^verbatim>\<open>0.1\<close> is the rational value of the double nearest to one tenth.
\<close>

definition double_0_1 :: rat where
  "double_0_1 = 3602879701896397 / 36028797018963968"

definition attemptProcessing ::
  "rat \<Rightarrow> 'a jsval \<Rightarrow> (proc_error + 'a jsval) \<times> 'a proc_event list" where
  "attemptProcessing u it =
     (if u < double_0_1 then (Inl ProcessingFailed, [Attempted, LogAttemptFailed it])
      else (Inr it, [Attempted]))"

record proc_env =
  delay1 :: int
  draw1 :: rat
  delay2 :: int
  draw2 :: rat

definition processWithRetry ::
  "proc_env \<Rightarrow> 'a jsval \<Rightarrow> (proc_error + 'a jsval) \<times> 'a proc_event list" where
  "processWithRetry e it =
     (let tr1 = simulateProcessingDelay (delay1 e) in
      case attemptProcessing (draw1 e) it of
        (Inr r, tr2) \<Rightarrow> (Inr r, tr1 @ tr2)
      | (Inl err, tr2) \<Rightarrow>
          (let tr3 = [LogRetrying it] @ simulateProcessingDelay (delay2 e) in
           case attemptProcessing (draw2 e) it of
             (Inr r, tr4) \<Rightarrow> (Inr r, tr1 @ tr2 @ tr3 @ tr4)
           | (Inl retryError, tr4) \<Rightarrow>
               (Inl retryError, tr1 @ tr2 @ tr3 @ tr4 @ [LogFailedAfterRetry it])))"

section \<open>Runs of the cooperative scheduler\<close>

text \<open>
  Between two suspension points the code runs to completion, so a run is a sequence of
  such atomic steps: a call of a public method, a promise settling, a callback or a
  timer firing. A step that is not enabled in a state (no such open chain, no such
  worker) leaves the state as it is.
\<close>

datatype 'a action =
    Enqueue "'a jsval" int "nat \<Rightarrow> tick"
  | Dequeue int
  | ProcessNext "nat \<Rightarrow> tick"
  | Settle nat outcome int
  | Finalize nat "nat \<Rightarrow> tick"
  | PoolStart "nat \<Rightarrow> int \<times> int"
  | WorkerWake nat int int
  | WorkerSettle nat outcome int
  | WorkerResume nat int int

fun step :: "'a action \<Rightarrow> 'a system \<Rightarrow> 'a system" where
  "step (Enqueue it now env) (p, q) = (p, snd (enqueue it now env q))"
| "step (Dequeue now) (p, q) = (p, snd (dequeue now q))"
| "step (ProcessNext env) (p, q) = (p, processNext env q)"
| "step (Settle k out now) (p, q) = (p, settle k out now q)"
| "step (Finalize k env) (p, q) = (p, finalize k env q)"
| "step (PoolStart env) (p, q) = start env (p, q)"
| "step (WorkerWake i tdeq tstart) (p, q) = worker_wake i tdeq tstart (p, q)"
| "step (WorkerSettle i out now) (p, q) = worker_settle i out now (p, q)"
| "step (WorkerResume i tdeq tstart) (p, q) = worker_resume i tdeq tstart (p, q)"

definition exec :: "'a action list \<Rightarrow> 'a system \<Rightarrow> 'a system" where
  "exec acts sys = fold step acts sys"

subsection \<open>Runs of the queue's own dispatch\<close>

text \<open>The steps in which nothing but the queue itself removes items from \<^verbatim>\<open>queue\<close>.\<close>

fun internal :: "'a action \<Rightarrow> bool" where
  "internal (Enqueue it now env) = True"
| "internal (ProcessNext env) = True"
| "internal (Settle k out now) = True"
| "internal (Finalize k env) = True"
| "internal a = False"

text \<open>
  The steps of the queue with no worker pool at work: the ones above and a call of
  \<^verbatim>\<open>dequeue\<close> from outside.
\<close>

fun queue_only :: "'a action \<Rightarrow> bool" where
  "queue_only (Dequeue now) = True"
| "queue_only a = internal a"

text \<open>
  Whether every turn of a call of the dispatch loop draws a slot identifier that is not
  in \<^verbatim>\<open>processing\<close> at that moment.
\<close>

function schedule_fresh :: "(nat \<Rightarrow> tick) \<Rightarrow> 'a webhook_queue \<Rightarrow> bool" where
  "schedule_fresh env s =
     (if schedule_guard s
      then slot_id (env 0) |\<notin>| processing s \<and>
           schedule_fresh (\<lambda>n. env (Suc n)) (schedule_turn (env 0) s)
      else True)"
  by pat_completeness auto
termination
  by (relation "measure (\<lambda>(env, s). length (queue s))")
    (auto simp: schedule_guard_def schedule_turn_def dequeue_def emit_def
      processItem_begin_def Let_def split: list.splits)

declare schedule_fresh.simps [simp del]

fun fresh_step :: "'a action \<Rightarrow> 'a system \<Rightarrow> bool" where
  "fresh_step (Enqueue it now env) (p, q) =
     (if over_threshold q then True else schedule_fresh env (admit it now (emit IncReceived q)))"
| "fresh_step (ProcessNext env) (p, q) =
     (if processNext_noop q then True else schedule_fresh env q)"
| "fresh_step (Finalize k env) (p, q) =
     (if k < length (invocations q) \<and> settled (invocations q ! k)
      then schedule_fresh env (release k q) else True)"
| "fresh_step a (p, q) = True"

fun fresh_run :: "'a action list \<Rightarrow> 'a system \<Rightarrow> bool" where
  "fresh_run [] sys = True"
| "fresh_run (a # acts) sys = (fresh_step a sys \<and> fresh_run acts (step a sys))"

section \<open>Bookkeeping\<close>

subsection \<open>Reading the call log\<close>

text \<open>
  The items of the accepted \<^verbatim>\<open>enqueue\<close> calls, of the removals from \<^verbatim>\<open>queue\<close>, of the
  calls of the processor, and of the ends of \<^verbatim>\<open>processItem\<close> (success or final failure),
  each in the order of the log.
\<close>

definition enqueued :: "'a event list \<Rightarrow> 'a jsval list" where
  "enqueued es = concat (map (\<lambda>e. case e of LogEnqueued x \<Rightarrow> [x] | _ \<Rightarrow> []) es)"

definition dequeued :: "'a event list \<Rightarrow> 'a jsval list" where
  "dequeued es = concat (map (\<lambda>e. case e of LogDequeued x \<Rightarrow> [x] | _ \<Rightarrow> []) es)"

definition completed :: "'a event list \<Rightarrow> 'a jsval list" where
  "completed es =
     concat (map (\<lambda>e. case e of LogProcessed x \<Rightarrow> [x] | LogProcessingError x \<Rightarrow> [x] | _ \<Rightarrow> []) es)"

definition started :: "'a event list \<Rightarrow> 'a jsval list" where
  "started es = concat (map (\<lambda>e. case e of ProcessorCalled x \<Rightarrow> [x] | _ \<Rightarrow> []) es)"

text \<open>The items of the open chains whose processor has not settled yet.\<close>

definition in_progress :: "'a webhook_queue \<Rightarrow> 'a jsval list" where
  "in_progress q = map inv_item (filter (\<lambda>i. \<not> settled i) (invocations q))"

subsection \<open>Invariants\<close>

text \<open>
  First in, first out: the accepted items are, in order, the ones removed from
  \<^verbatim>\<open>queue\<close> so far and then the ones still in it.
\<close>

definition fifo :: "'a webhook_queue \<Rightarrow> bool" where
  "fifo q \<longleftrightarrow> enqueued (calls q) = dequeued (calls q) @ map item (queue q)"

text \<open>
  The bookkeeping of a queue whose every removal from \<^verbatim>\<open>queue\<close> was made by the dispatch
  loop with a fresh slot identifier: the open chains hold pairwise different identifiers,
  \<^verbatim>\<open>processing\<close> is the set of these, and every accepted item is queued, in progress or
  completed.
\<close>

definition tracked :: "'a webhook_queue \<Rightarrow> bool" where
  "tracked q \<longleftrightarrow>
     distinct (map inv_id (invocations q)) \<and>
     fset (processing q) = set (map inv_id (invocations q)) \<and>
     mset (enqueued (calls q)) =
       mset (completed (calls q)) + mset (in_progress q) + mset (map item (queue q))"

text \<open>
  The processor is called with removed items only, in the order of their removal; and,
  where nothing is removed but by the dispatch loop, with every removed item.
\<close>

definition ordered :: "'a webhook_queue \<Rightarrow> bool" where
  "ordered q \<longleftrightarrow> subseq (started (calls q)) (dequeued (calls q))"

definition all_started :: "'a webhook_queue \<Rightarrow> bool" where
  "all_started q \<longleftrightarrow> started (calls q) = dequeued (calls q)"

text \<open>
  One at a time: the bookkeeping of a queue of concurrency 1 with no worker pool at work.
  At most one chain is open, its identifier is the one member of \<^verbatim>\<open>processing\<close>, and
  the items the processor was called with are, in order, the completed ones and the one
  in progress.
\<close>

definition serial :: "'a webhook_queue \<Rightarrow> bool" where
  "serial q \<longleftrightarrow>
     concurrency q = 1 \<and>
     length (invocations q) \<le> 1 \<and>
     fset (processing q) = set (map inv_id (invocations q)) \<and>
     started (calls q) = completed (calls q) @ in_progress q"

subsection \<open>Frames\<close>

text \<open>What no step of the pool touches, and how a step of the pool moves the queue.\<close>

definition pool_frame :: "'a webhook_queue \<Rightarrow> 'a webhook_queue \<Rightarrow> bool" where
  "pool_frame q q' \<longleftrightarrow>
     processing q' = processing q \<and> concurrency q' = concurrency q \<and>
     threshold q' = threshold q \<and> invocations q' = invocations q \<and>
     length (queue q') \<le> length (queue q)"

text \<open>How one step moves the quantities the limits are about.\<close>

definition step_frame :: "'a webhook_queue \<Rightarrow> 'a webhook_queue \<Rightarrow> bool" where
  "step_frame q q' \<longleftrightarrow>
     concurrency q' = concurrency q \<and> threshold q' = threshold q \<and>
     totalItems q' \<le> max (totalItems q) (threshold q - 1) \<and>
     int (fcard (processing q')) \<le> max (int (fcard (processing q))) (concurrency q)"

section \<open>Concrete environments and runs\<close>

text \<open>
  Clock readings that are all \<open>0\<close> and slot identifiers \<open>k\<close>, \<open>k + 1\<close>, \<dots> for the
  turns of one call of the dispatch loop; a pool of one worker that has not been started.
\<close>

definition ticks :: "nat \<Rightarrow> nat \<Rightarrow> tick" where
  "ticks k n = \<lparr>deq_now = 0, slot_id = k + n, start_now = 0\<rparr>"

definition idle_pool :: "nat worker_pool" where
  "idle_pool = \<lparr>pool_concurrency = 1, workers = [], running = False, originalProcessNext = None\<rparr>"

definition four_admitted :: "nat webhook_queue" where
  "four_admitted =
     snd (exec [Enqueue (Val 1) 0 (ticks 0), Enqueue (Val 2) 0 (ticks 10),
                Enqueue (Val 3) 0 (ticks 20), Enqueue (Val 4) 0 (ticks 30)]
            (idle_pool, new_queue 1 5))"

definition three_enqueued :: "nat webhook_queue" where
  "three_enqueued =
     snd (exec [Enqueue (Val 1) 0 (ticks 0), Enqueue (Val 2) 0 (ticks 10),
                Enqueue (Val 3) 0 (ticks 20)]
            (idle_pool, new_queue 2 10))"

definition first_admitted :: "nat webhook_queue" where
  "first_admitted = admit (Val 1) 0 (emit IncReceived (new_queue 2 10))"

text \<open>
  A queue of concurrency 1 and threshold 10 handed to a pool of one worker built with
  the default options, and the pool started; then two calls of \<^verbatim>\<open>enqueue\<close> and the
  worker's timer firing; then either the worker's item or the queue's own item completes.
  A queue with one item waiting.
\<close>

definition pooled :: "nat system" where
  "pooled = start (\<lambda>n. (0, 0)) (new_WorkerPool 1 True (new_queue 1 10))"

definition pooled_run :: "nat system" where
  "pooled_run =
     exec [Enqueue (Val 7) 0 (ticks 0), Enqueue (Val 8) 0 (ticks 10), WorkerWake 0 0 0] pooled"

definition pooled_reordered :: "nat system" where
  "pooled_reordered =
     exec [Enqueue (Val 7) 0 (ticks 0), Enqueue (Val 8) 0 (ticks 10), WorkerWake 0 0 0,
           WorkerSettle 0 Fulfilled 5] pooled"

definition pooled_drained :: "nat system" where
  "pooled_drained =
     exec [Enqueue (Val 7) 0 (ticks 0), Enqueue (Val 8) 0 (ticks 10), WorkerWake 0 0 0,
           Settle 0 Fulfilled 5, Finalize 0 (ticks 20)] pooled"

text \<open>
  Two items through a queue of concurrency 1 and threshold 5: the first succeeds, the
  second fails for good.
\<close>

definition two_items_run :: "nat action list" where
  "two_items_run =
     [Enqueue (Val 1) 0 (ticks 0), Enqueue (Val 2) 0 (ticks 10),
      Settle 0 Fulfilled 5, Finalize 0 (ticks 20),
      Settle 0 Rejected 9, Finalize 0 (ticks 30)]"

definition one_waiting :: "nat webhook_queue" where
  "one_waiting = (new_queue 1 10)\<lparr>queue := [\<lparr>item = Val 8, enqueuedAt = 0\<rparr>]\<rparr>"

text \<open>Two timers of 100 and 300 milliseconds and the two draws.\<close>

definition retry_env :: "rat \<Rightarrow> rat \<Rightarrow> proc_env" where
  "retry_env u1 u2 = \<lparr>delay1 = 100, draw1 = u1, delay2 = 300, draw2 = u2\<rparr>"

section \<open>Basic facts about the operations\<close>

lemma emit_fields [simp]:
  "queue (emit e s) = queue s"
  "processing (emit e s) = processing s"
  "concurrency (emit e s) = concurrency s"
  "threshold (emit e s) = threshold s"
  "processNext_noop (emit e s) = processNext_noop s"
  "invocations (emit e s) = invocations s"
  "calls (emit e s) = calls s @ [e]"
  by (simp_all add: emit_def)

lemma totalItems_emit [simp]: "totalItems (emit e s) = totalItems s"
  by (simp add: totalItems_def)

lemma dequeue_Nil: "queue s = [] \<Longrightarrow> dequeue now s = (Null, s)"
  by (simp add: dequeue_def)

lemma dequeue_Cons:
  "queue s = e # rest \<Longrightarrow>
   dequeue now s =
     (item e,
      emit (LogDequeued (item e))
        (emit (SetQueueLength (int (length rest) + int (fcard (processing s))))
          (emit (ObserveQueueTime (now - enqueuedAt e)) (s\<lparr>queue := rest\<rparr>))))"
  by (simp add: dequeue_def Let_def totalItems_def)

lemma dequeue_fields [simp]:
  "queue (snd (dequeue now s)) = tl (queue s)"
  "processing (snd (dequeue now s)) = processing s"
  "concurrency (snd (dequeue now s)) = concurrency s"
  "threshold (snd (dequeue now s)) = threshold s"
  "processNext_noop (snd (dequeue now s)) = processNext_noop s"
  "invocations (snd (dequeue now s)) = invocations s"
  by (cases "queue s"; simp add: dequeue_Nil dequeue_Cons)+

lemma schedule_turn_fields [simp]:
  "queue (schedule_turn tk s) = tl (queue s)"
  "processing (schedule_turn tk s) = finsert (slot_id tk) (processing s)"
  "concurrency (schedule_turn tk s) = concurrency s"
  "threshold (schedule_turn tk s) = threshold s"
  "processNext_noop (schedule_turn tk s) = processNext_noop s"
  by (simp_all add: schedule_turn_def processItem_begin_def Let_def split: prod.splits)
    (metis dequeue_fields snd_conv)+

lemma scheduleProcessing_config [simp]:
  "concurrency (scheduleProcessing env s) = concurrency s"
  "threshold (scheduleProcessing env s) = threshold s"
  "processNext_noop (scheduleProcessing env s) = processNext_noop s"
  by (induction env s rule: scheduleProcessing.induct; subst scheduleProcessing.simps; simp)+

lemma scheduleProcessing_stops: "\<not> schedule_guard (scheduleProcessing env s)"
  by (induction env s rule: scheduleProcessing.induct) (subst scheduleProcessing.simps, simp)

lemma scheduleProcessing_total: "totalItems (scheduleProcessing env s) \<le> totalItems s"
proof (induction env s rule: scheduleProcessing.induct)
  case (1 env s)
  show ?case
  proof (cases "schedule_guard s")
    case True
    then have "queue s \<noteq> []" by (simp add: schedule_guard_def)
    then have "totalItems (schedule_turn (env 0) s) \<le> totalItems s"
      by (cases "queue s") (simp_all add: totalItems_def fcard_finsert_if)
    with 1 True show ?thesis by (subst scheduleProcessing.simps) simp
  next
    case False
    then show ?thesis by (subst scheduleProcessing.simps) simp
  qed
qed

lemma scheduleProcessing_bound:
  "int (fcard (processing (scheduleProcessing env s))) \<le> max (int (fcard (processing s))) (concurrency s)"
proof (induction env s rule: scheduleProcessing.induct)
  case (1 env s)
  show ?case
  proof (cases "schedule_guard s")
    case True
    then have "int (fcard (processing (schedule_turn (env 0) s))) \<le> concurrency s"
      by (simp add: schedule_guard_def fcard_finsert_if)
    with 1 True show ?thesis by (subst scheduleProcessing.simps) simp
  next
    case False
    then show ?thesis by (subst scheduleProcessing.simps) simp
  qed
qed

lemma schedule_turn_calls:
  "\<exists>es. calls (schedule_turn tk s) = calls s @ es \<and>
        set es \<subseteq> range SetQueueLength \<union> range ObserveQueueTime \<union> range LogDequeued \<union> range ProcessorCalled"
  by (cases "queue s")
    (auto simp: schedule_turn_def dequeue_Nil dequeue_Cons processItem_begin_def Let_def)

lemma scheduleProcessing_calls:
  "\<exists>es. calls (scheduleProcessing env s) = calls s @ es \<and>
        set es \<subseteq> range SetQueueLength \<union> range ObserveQueueTime \<union> range LogDequeued \<union> range ProcessorCalled"
proof (induction env s rule: scheduleProcessing.induct)
  case (1 env s)
  show ?case
  proof (cases "schedule_guard s")
    case True
    from schedule_turn_calls [of "env 0" s] obtain es where
      es: "calls (schedule_turn (env 0) s) = calls s @ es"
        "set es \<subseteq> range SetQueueLength \<union> range ObserveQueueTime \<union> range LogDequeued \<union> range ProcessorCalled"
      by blast
    from 1 [OF True] obtain fs where
      fs: "calls (scheduleProcessing (\<lambda>n. env (Suc n)) (schedule_turn (env 0) s)) =
             calls (schedule_turn (env 0) s) @ fs"
        "set fs \<subseteq> range SetQueueLength \<union> range ObserveQueueTime \<union> range LogDequeued \<union> range ProcessorCalled"
      by blast
    have "calls (scheduleProcessing env s) = calls s @ (es @ fs)"
      using True es(1) fs(1) by (subst scheduleProcessing.simps) simp
    moreover have "set (es @ fs) \<subseteq> range SetQueueLength \<union> range ObserveQueueTime \<union> range LogDequeued \<union> range ProcessorCalled"
      using es(2) fs(2) by simp
    ultimately show ?thesis by blast
  next
    case False
    then show ?thesis by (subst scheduleProcessing.simps) simp
  qed
qed

lemma exec_Nil [simp]: "exec [] sys = sys"
  by (simp add: exec_def)

lemma exec_snoc [simp]: "exec (acts @ [a]) sys = step a (exec acts sys)"
  by (simp add: exec_def)

lemma enqueue_rejected:
  "over_threshold s \<Longrightarrow>
   enqueue it now env s =
     (Inl QueueOverloadedError, s\<lparr>calls := calls s @ [IncReceived, LogOverload it, IncTooMany]\<rparr>)"
  by (simp add: enqueue_def over_threshold_def emit_def)

lemma enqueue_accepted:
  "\<not> over_threshold s \<Longrightarrow>
   enqueue it now env s = (Inr (), scheduleProcessing env (admit it now (emit IncReceived s)))"
  by (simp add: enqueue_def over_threshold_def)

lemma admit_fields [simp]:
  "queue (admit it now s) = queue s @ [\<lparr>item = it, enqueuedAt = now\<rparr>]"
  "processing (admit it now s) = processing s"
  "concurrency (admit it now s) = concurrency s"
  "threshold (admit it now s) = threshold s"
  "processNext_noop (admit it now s) = processNext_noop s"
  "invocations (admit it now s) = invocations s"
  "calls (admit it now s) =
     calls s @ [SetQueueLength (int (length (queue s)) + 1 + int (fcard (processing s))), LogEnqueued it]"
  by (simp_all add: admit_def Let_def totalItems_def)

lemma enqueue_config [simp]:
  "concurrency (snd (enqueue it now env s)) = concurrency s"
  "threshold (snd (enqueue it now env s)) = threshold s"
  "processNext_noop (snd (enqueue it now env s)) = processNext_noop s"
  by (cases "over_threshold s"; simp add: enqueue_rejected enqueue_accepted)+

lemma processItem_end_fields [simp]:
  "queue (snd (processItem_end it st out now s)) = queue s"
  "processing (snd (processItem_end it st out now s)) = processing s"
  "concurrency (snd (processItem_end it st out now s)) = concurrency s"
  "threshold (snd (processItem_end it st out now s)) = threshold s"
  "processNext_noop (snd (processItem_end it st out now s)) = processNext_noop s"
  "invocations (snd (processItem_end it st out now s)) = invocations s"
  by (cases out; simp add: processItem_end_def Let_def)+

lemma settle_fields [simp]:
  "queue (settle k out now s) = queue s"
  "processing (settle k out now s) = processing s"
  "concurrency (settle k out now s) = concurrency s"
  "threshold (settle k out now s) = threshold s"
  "processNext_noop (settle k out now s) = processNext_noop s"
  by (simp_all add: settle_def Let_def)

lemma release_fields [simp]:
  "queue (release k s) = queue s"
  "processing (release k s) = processing s |-| {|inv_id (invocations s ! k)|}"
  "concurrency (release k s) = concurrency s"
  "threshold (release k s) = threshold s"
  "processNext_noop (release k s) = processNext_noop s"
  "invocations (release k s) = take k (invocations s) @ drop (Suc k) (invocations s)"
  by (simp_all add: release_def Let_def)

lemma finalize_config [simp]:
  "concurrency (finalize k env s) = concurrency s"
  "threshold (finalize k env s) = threshold s"
  "processNext_noop (finalize k env s) = processNext_noop s"
  by (simp_all add: finalize_def)

lemma processNext_config [simp]:
  "concurrency (processNext env s) = concurrency s"
  "threshold (processNext env s) = threshold s"
  by (simp_all add: processNext_def)

lemma workerLoop_head_fields [simp]:
  "queue (snd (workerLoop_head tdeq tstart p q)) = (if running p then tl (queue q) else queue q)"
  "processing (snd (workerLoop_head tdeq tstart p q)) = processing q"
  "concurrency (snd (workerLoop_head tdeq tstart p q)) = concurrency q"
  "threshold (snd (workerLoop_head tdeq tstart p q)) = threshold q"
  "processNext_noop (snd (workerLoop_head tdeq tstart p q)) = processNext_noop q"
  "invocations (snd (workerLoop_head tdeq tstart p q)) = invocations q"
  by (cases "queue q"; simp add: workerLoop_head_def dequeue_Nil dequeue_Cons processItem_begin_def)+

lemma pool_frame_refl [simp]: "pool_frame q q"
  by (simp add: pool_frame_def)

lemma pool_frame_emit [simp]: "pool_frame q (emit e q)"
  by (simp add: pool_frame_def)

lemma pool_frame_trans: "pool_frame q q1 \<Longrightarrow> pool_frame q1 q2 \<Longrightarrow> pool_frame q q2"
  by (simp add: pool_frame_def)

lemma pool_frame_head: "pool_frame q (snd (workerLoop_head tdeq tstart p q))"
  by (simp add: pool_frame_def)

lemma pool_frame_start_loop: "pool_frame q (snd (start_loop n env (p, q)))"
proof (induction n arbitrary: env p q)
  case 0
  show ?case by simp
next
  case (Suc n)
  obtain w q1 where h: "workerLoop_head (fst (env 0)) (snd (env 0)) p q = (w, q1)"
    by (cases "workerLoop_head (fst (env 0)) (snd (env 0)) p q")
  have "pool_frame q q1" using pool_frame_head [of q "fst (env 0)" "snd (env 0)" p] h by simp
  moreover have "pool_frame q1 (snd (start_loop n (\<lambda>n. env (Suc n)) (p\<lparr>workers := workers p @ [w]\<rparr>, q1)))"
    by (rule Suc.IH)
  ultimately show ?case using h by (simp add: pool_frame_trans)
qed

lemma pool_frame_start: "pool_frame q (snd (start env (p, q)))"
proof (cases "running p")
  case True
  then show ?thesis by (simp add: start_def)
next
  case False
  have "pool_frame q
     (snd (start_loop (nat (pool_concurrency p)) env
        (p\<lparr>running := True\<rparr>, emit (LogPoolStarting (pool_concurrency p)) q)))"
    by (rule pool_frame_trans [OF pool_frame_emit pool_frame_start_loop])
  then show ?thesis
    using False by (simp add: start_def)
qed

lemma pool_frame_wake: "pool_frame q (snd (worker_wake i tdeq tstart (p, q)))"
  using pool_frame_head [of q tdeq tstart p]
  by (simp add: worker_wake_def split_beta)

lemma pool_frame_processItem_end: "pool_frame q (snd (processItem_end it st out now q))"
  by (simp add: pool_frame_def)

lemma pool_frame_settle: "pool_frame q (snd (worker_settle i out now (p, q)))"
  by (cases "workers p ! i")
    (simp_all add: worker_settle_def split_beta pool_frame_processItem_end)

lemma pool_frame_resume: "pool_frame q (snd (worker_resume i tdeq tstart (p, q)))"
proof -
  have "pool_frame q (snd (workerLoop_head tdeq tstart p (emit LogWorkerError q)))"
    by (rule pool_frame_trans [OF pool_frame_emit pool_frame_head])
  then show ?thesis
    using pool_frame_head [of q tdeq tstart p]
    by (cases "workers p ! i") (simp_all add: worker_resume_def Let_def split_beta)
qed

lemma pool_frame_step_frame: "pool_frame q q' \<Longrightarrow> step_frame q q'"
  by (auto simp: pool_frame_def step_frame_def totalItems_def max_def)

lemma step_frame_scheduleProcessing:
  assumes "step_frame q q1"
  shows "step_frame q (scheduleProcessing env q1)"
proof -
  have "totalItems (scheduleProcessing env q1) \<le> totalItems q1"
    by (rule scheduleProcessing_total)
  moreover have "int (fcard (processing (scheduleProcessing env q1)))
      \<le> max (int (fcard (processing q1))) (concurrency q1)"
    by (rule scheduleProcessing_bound)
  ultimately show ?thesis using assms unfolding step_frame_def by simp linarith
qed

lemma step_frame_enqueue: "step_frame q (snd (enqueue it now env q))"
proof (cases "over_threshold q")
  case True
  then show ?thesis by (simp add: enqueue_rejected step_frame_def totalItems_def)
next
  case False
  then have "step_frame q (admit it now (emit IncReceived q))"
    by (simp add: step_frame_def totalItems_def over_threshold_def max_def)
  then show ?thesis
    using False by (simp add: enqueue_accepted step_frame_scheduleProcessing)
qed

lemma step_frame_dequeue: "step_frame q (snd (dequeue now q))"
  by (cases "queue q") (simp_all add: step_frame_def totalItems_def max_def)

lemma step_frame_processNext: "step_frame q (processNext env q)"
proof -
  have "step_frame q q" by (simp add: step_frame_def)
  then show ?thesis by (simp add: processNext_def step_frame_scheduleProcessing)
qed

lemma step_frame_settle: "step_frame q (settle k out now q)"
  by (simp add: step_frame_def totalItems_def)

lemma step_frame_finalize: "step_frame q (finalize k env q)"
proof (cases "k < length (invocations q) \<and> settled (invocations q ! k)")
  case True
  have "fcard (processing q |-| {|inv_id (invocations q ! k)|}) \<le> fcard (processing q)"
    by (rule fcard_fminus1_le)
  then have "step_frame q (release k q)"
    by (simp add: step_frame_def totalItems_def max_def)
  then show ?thesis using True by (simp add: finalize_def step_frame_scheduleProcessing)
next
  case False
  then show ?thesis by (auto simp: finalize_def step_frame_def)
qed

lemma step_frame_step: "step_frame q (snd (step a (p, q)))"
proof (cases a)
  case (Enqueue it now env)
  then show ?thesis by (simp add: step_frame_enqueue)
next
  case (Dequeue now)
  then show ?thesis by (simp add: step_frame_dequeue)
next
  case (ProcessNext env)
  then show ?thesis by (simp add: step_frame_processNext)
next
  case (Settle k out now)
  then show ?thesis by (simp add: step_frame_settle)
next
  case (Finalize k env)
  then show ?thesis by (simp add: step_frame_finalize)
next
  case (PoolStart env)
  then show ?thesis using pool_frame_start [of q env p] by (simp add: pool_frame_step_frame)
next
  case (WorkerWake i t1 t2)
  then show ?thesis using pool_frame_wake [of q i t1 t2 p] by (simp add: pool_frame_step_frame)
next
  case (WorkerSettle i out now)
  then show ?thesis using pool_frame_settle [of q i out now p] by (simp add: pool_frame_step_frame)
next
  case (WorkerResume i t1 t2)
  then show ?thesis using pool_frame_resume [of q i t1 t2 p] by (simp add: pool_frame_step_frame)
qed

lemma step_frame_exec: "step_frame (snd sys) (snd (exec acts sys))"
proof (induction acts rule: rev_induct)
  case Nil
  show ?case by (simp add: step_frame_def)
next
  case (snoc a acts)
  obtain p q where pq: "exec acts sys = (p, q)" by (cases "exec acts sys")
  have "step_frame q (snd (step a (p, q)))" by (rule step_frame_step)
  with snoc pq show ?case unfolding step_frame_def by simp linarith
qed

section \<open>Admission control\<close>

lemma enqueue_fst: "fst (enqueue it now env s) = Inl QueueOverloadedError \<longleftrightarrow> over_threshold s"
  by (simp add: enqueue_def Let_def over_threshold_def)

text \<open>
  C1. \<^verbatim>\<open>enqueue\<close> fails with \<^verbatim>\<open>QueueOverloadedError\<close> exactly when
  \<open>|queue| + |processing| + 1 \<ge> threshold\<close> at the call. A failed call changes nothing
  but the call log, to which it adds the arrival, the warning and the rejection: the item
  is not stored and no turn of the dispatch loop runs. From a state with
  \<open>|queue| + |processing| \<le> threshold - 1\<close> (a new queue with a positive threshold is
  one) every run of steps keeps the threshold and stays within that bound.
\<close>

theorem enqueue_admission_control:
  "(fst (enqueue it now env s) = Inl QueueOverloadedError
      \<longleftrightarrow> threshold s \<le> int (length (queue s)) + int (fcard (processing s)) + 1)
   \<and> (fst (enqueue it now env s) = Inl QueueOverloadedError \<longrightarrow>
        snd (enqueue it now env s) = s\<lparr>calls := calls s @ [IncReceived, LogOverload it, IncTooMany]\<rparr>)
   \<and> (int (length (queue q0)) + int (fcard (processing q0)) \<le> threshold q0 - 1 \<longrightarrow>
        threshold (snd (exec acts (p, q0))) = threshold q0 \<and>
        int (length (queue (snd (exec acts (p, q0))))) + int (fcard (processing (snd (exec acts (p, q0)))))
          \<le> threshold q0 - 1)
   \<and> (0 < t \<longrightarrow>
        int (length (queue (snd (exec acts (p, new_queue c t))))) +
        int (fcard (processing (snd (exec acts (p, new_queue c t))))) \<le> t - 1)"
proof (intro conjI impI)
  show "fst (enqueue it now env s) = Inl QueueOverloadedError
      \<longleftrightarrow> threshold s \<le> int (length (queue s)) + int (fcard (processing s)) + 1"
    by (simp add: enqueue_fst over_threshold_def)
next
  assume "fst (enqueue it now env s) = Inl QueueOverloadedError"
  then have "over_threshold s" by (simp add: enqueue_fst)
  then show "snd (enqueue it now env s) = s\<lparr>calls := calls s @ [IncReceived, LogOverload it, IncTooMany]\<rparr>"
    by (simp add: enqueue_rejected)
next
  have f: "step_frame q0 (snd (exec acts (p, q0)))"
    using step_frame_exec [of "(p, q0)" acts] by simp
  then show "threshold (snd (exec acts (p, q0))) = threshold q0"
    by (simp add: step_frame_def)
  assume "int (length (queue q0)) + int (fcard (processing q0)) \<le> threshold q0 - 1"
  with f show "int (length (queue (snd (exec acts (p, q0))))) + int (fcard (processing (snd (exec acts (p, q0)))))
          \<le> threshold q0 - 1"
    by (simp add: step_frame_def totalItems_def)
next
  have "step_frame (new_queue c t) (snd (exec acts (p, new_queue c t)))"
    using step_frame_exec [of "(p, new_queue c t)" acts] by simp
  moreover assume "0 < t"
  ultimately show "int (length (queue (snd (exec acts (p, new_queue c t))))) +
        int (fcard (processing (snd (exec acts (p, new_queue c t))))) \<le> t - 1"
    by (simp add: step_frame_def totalItems_def new_queue_def fcard_fempty)
qed

theorem enqueue_admission_control_witness:
  "fst (enqueue (Val 5) 0 (ticks 40) four_admitted) = Inl QueueOverloadedError
   \<and> snd (enqueue (Val 5) 0 (ticks 40) four_admitted) =
       four_admitted\<lparr>calls := calls four_admitted @ [IncReceived, LogOverload (Val 5), IncTooMany]\<rparr>
   \<and> int (length (queue (new_queue 1 5 :: nat webhook_queue))) +
       int (fcard (processing (new_queue 1 5 :: nat webhook_queue)))
         \<le> threshold (new_queue 1 5 :: nat webhook_queue) - 1
   \<and> int (length (queue four_admitted)) + int (fcard (processing four_admitted)) \<le> 4"
proof -
  have h1: "fst (enqueue (Val 5) 0 (ticks 40) four_admitted) = Inl QueueOverloadedError"
    unfolding four_admitted_def by code_simp
  have h2: "int (length (queue (new_queue 1 5 :: nat webhook_queue))) +
       int (fcard (processing (new_queue 1 5 :: nat webhook_queue)))
         \<le> threshold (new_queue 1 5 :: nat webhook_queue) - 1"
    by (simp add: new_queue_def fcard_fempty)
  have t: "threshold (new_queue 1 5 :: nat webhook_queue) - 1 = 4"
    by (simp add: new_queue_def)
  show ?thesis
    using h1 h2 t
      enqueue_admission_control [of "Val 5" 0 "ticks 40" four_admitted "new_queue 1 5"
        "[Enqueue (Val 1) 0 (ticks 0), Enqueue (Val 2) 0 (ticks 10),
          Enqueue (Val 3) 0 (ticks 20), Enqueue (Val 4) 0 (ticks 30)]" idle_pool 5 1]
    by (simp add: four_admitted_def)
qed

text \<open>
  The item about to be admitted counts: with threshold 1 the first call on a new queue is
  already rejected, since \<open>0 + 0 + 1 \<ge> 1\<close>.
\<close>

lemma first_enqueue_at_threshold_one:
  "fst (enqueue (Val (1::nat)) 0 (ticks 0) (new_queue 1 1)) = Inl QueueOverloadedError"
  by code_simp

section \<open>Depth\<close>

text \<open>
  C7. \<^verbatim>\<open>size()\<close> and \<^verbatim>\<open>totalItems()\<close> return the same value, and this value is the
  recount \<open>|queue| + |processing|\<close> of the state they are called in; so it is in every
  state a run reaches.
\<close>

theorem size_totalItems_recount:
  "size_q s = totalItems s
   \<and> totalItems s = int (length (queue s)) + int (fcard (processing s))
   \<and> size_q (snd (exec acts sys)) = totalItems (snd (exec acts sys))
   \<and> totalItems (snd (exec acts sys)) =
       int (length (queue (snd (exec acts sys)))) + int (fcard (processing (snd (exec acts sys))))"
  by (simp add: size_q_def totalItems_def)

theorem size_totalItems_recount_witness:
  "size_q three_enqueued = 3 \<and> totalItems three_enqueued = 3
   \<and> length (queue three_enqueued) = 1 \<and> fcard (processing three_enqueued) = 2"
proof -
  have h: "length (queue three_enqueued) = 1 \<and> fcard (processing three_enqueued) = 2"
    unfolding three_enqueued_def by code_simp
  show ?thesis
    using h size_totalItems_recount [of three_enqueued "[]" "(idle_pool, three_enqueued)"]
    by simp
qed

section \<open>Arrivals\<close>

lemma count_list_append: "count_list (xs @ ys) x = count_list xs x + count_list ys x"
  by (induction xs) simp_all

lemma count_list_absent: "x \<notin> set xs \<Longrightarrow> count_list xs x = 0"
  by (induction xs) auto

lemma enqueue_calls:
  "\<exists>es. calls (snd (enqueue it now env s)) = calls s @ IncReceived # es \<and> IncReceived \<notin> set es"
proof (cases "over_threshold s")
  case True
  then show ?thesis by (simp add: enqueue_rejected)
next
  case False
  obtain es where es: "calls (scheduleProcessing env (admit it now (emit IncReceived s))) =
      calls (admit it now (emit IncReceived s)) @ es"
    "set es \<subseteq> range SetQueueLength \<union> range ObserveQueueTime \<union> range LogDequeued \<union> range ProcessorCalled"
    using scheduleProcessing_calls by blast
  have "IncReceived \<notin> set es" using es(2) by auto
  then show ?thesis using False es(1) by (simp add: enqueue_accepted)
qed

text \<open>
  C10. Every call of \<^verbatim>\<open>enqueue\<close> reports exactly one arrival, as the first thing it
  does; a call that fails with \<^verbatim>\<open>QueueOverloadedError\<close> reports the arrival and then
  the rejection.
\<close>

theorem enqueue_reports_arrival:
  "count_list (calls (snd (enqueue it now env s))) IncReceived = count_list (calls s) IncReceived + 1
   \<and> (\<exists>es. calls (snd (enqueue it now env s)) = calls s @ IncReceived # es)
   \<and> (fst (enqueue it now env s) = Inl QueueOverloadedError \<longrightarrow>
        calls (snd (enqueue it now env s)) = calls s @ [IncReceived, LogOverload it, IncTooMany])"
proof (intro conjI impI)
  obtain es where es: "calls (snd (enqueue it now env s)) = calls s @ IncReceived # es"
    "IncReceived \<notin> set es"
    using enqueue_calls by blast
  then show "count_list (calls (snd (enqueue it now env s))) IncReceived = count_list (calls s) IncReceived + 1"
    by (simp add: count_list_append count_list_absent)
  from es(1) show "\<exists>es. calls (snd (enqueue it now env s)) = calls s @ IncReceived # es" by blast
next
  assume "fst (enqueue it now env s) = Inl QueueOverloadedError"
  then have "over_threshold s" by (simp add: enqueue_fst)
  then show "calls (snd (enqueue it now env s)) = calls s @ [IncReceived, LogOverload it, IncTooMany]"
    by (simp add: enqueue_rejected)
qed

theorem enqueue_reports_arrival_witness:
  "fst (enqueue (Val 5) 0 (ticks 40) four_admitted) = Inl QueueOverloadedError
   \<and> calls (snd (enqueue (Val 5) 0 (ticks 40) four_admitted)) =
       calls four_admitted @ [IncReceived, LogOverload (Val 5), IncTooMany]"
proof -
  have h: "fst (enqueue (Val 5) 0 (ticks 40) four_admitted) = Inl QueueOverloadedError"
    unfolding four_admitted_def by code_simp
  show ?thesis
    using h enqueue_reports_arrival [of "Val 5" 0 "ticks 40" four_admitted] by blast
qed

section \<open>The concurrency limit\<close>

lemma schedule_turn_invocations:
  "invocations (schedule_turn tk s) =
     invocations s @ [\<lparr>inv_id = slot_id tk, inv_item = fst (dequeue (deq_now tk) s),
                        startTime = start_now tk, settled = False\<rparr>]"
  by (simp add: schedule_turn_def processItem_begin_def Let_def split_beta)

lemma scheduleProcessing_skip: "\<not> schedule_guard s \<Longrightarrow> scheduleProcessing env s = s"
  by (subst scheduleProcessing.simps) simp

lemma schedule_states_guard: "st \<in> set (schedule_states env s) \<Longrightarrow> schedule_guard st"
proof (induction env s rule: schedule_states.induct)
  case (1 env s)
  then show ?case
    by (subst (asm) (2) schedule_states.simps) (auto split: if_splits)
qed

lemma scheduleProcessing_started:
  "length (invocations (scheduleProcessing env s)) =
     length (invocations s) + length (schedule_states env s)"
proof (induction env s rule: scheduleProcessing.induct)
  case (1 env s)
  show ?case
  proof (cases "schedule_guard s")
    case True
    with 1 show ?thesis
      by (subst scheduleProcessing.simps, subst schedule_states.simps)
        (simp add: schedule_turn_invocations)
  next
    case False
    then show ?thesis
      by (subst scheduleProcessing.simps, subst schedule_states.simps) simp
  qed
qed

text \<open>
  C2. From a state with \<open>|processing| \<le> concurrency\<close> every run of steps keeps the limit
  and stays within it. The dispatch loop enters its body only in states with
  \<open>|processing| < concurrency\<close> and a non-empty \<^verbatim>\<open>queue\<close>, it starts one processor
  invocation for each such state, and it does nothing when the condition fails at the call.
\<close>

theorem processing_within_concurrency:
  "(int (fcard (processing q0)) \<le> concurrency q0 \<longrightarrow>
      concurrency (snd (exec acts (p, q0))) = concurrency q0 \<and>
      int (fcard (processing (snd (exec acts (p, q0))))) \<le> concurrency q0)
   \<and> (\<forall>st \<in> set (schedule_states env s).
         int (fcard (processing st)) < concurrency st \<and> queue st \<noteq> [])
   \<and> length (invocations (scheduleProcessing env s)) =
       length (invocations s) + length (schedule_states env s)
   \<and> (\<not> (int (fcard (processing s)) < concurrency s \<and> queue s \<noteq> []) \<longrightarrow>
        scheduleProcessing env s = s)
   \<and> (0 \<le> c \<longrightarrow> int (fcard (processing (snd (exec acts (p, new_queue c t))))) \<le> c)"
proof (intro conjI impI ballI)
  have f: "step_frame q0 (snd (exec acts (p, q0)))"
    using step_frame_exec [of "(p, q0)" acts] by simp
  then show "concurrency (snd (exec acts (p, q0))) = concurrency q0"
    by (simp add: step_frame_def)
  assume "int (fcard (processing q0)) \<le> concurrency q0"
  with f show "int (fcard (processing (snd (exec acts (p, q0))))) \<le> concurrency q0"
    by (simp add: step_frame_def)
next
  fix st assume "st \<in> set (schedule_states env s)"
  then have "schedule_guard st" by (rule schedule_states_guard)
  then show "int (fcard (processing st)) < concurrency st" "queue st \<noteq> []"
    by (simp_all add: schedule_guard_def)
next
  show "length (invocations (scheduleProcessing env s)) =
       length (invocations s) + length (schedule_states env s)"
    by (rule scheduleProcessing_started)
next
  assume "\<not> (int (fcard (processing s)) < concurrency s \<and> queue s \<noteq> [])"
  then have "\<not> schedule_guard s" by (simp add: schedule_guard_def)
  then show "scheduleProcessing env s = s" by (rule scheduleProcessing_skip)
next
  have "step_frame (new_queue c t) (snd (exec acts (p, new_queue c t)))"
    using step_frame_exec [of "(p, new_queue c t)" acts] by simp
  moreover assume "0 \<le> c"
  ultimately show "int (fcard (processing (snd (exec acts (p, new_queue c t))))) \<le> c"
    by (simp add: step_frame_def new_queue_def fcard_fempty)
qed

theorem processing_within_concurrency_witness:
  "int (fcard (processing (new_queue 2 10 :: nat webhook_queue)))
     \<le> concurrency (new_queue 2 10 :: nat webhook_queue)
   \<and> int (fcard (processing three_enqueued)) \<le> concurrency (new_queue 2 10 :: nat webhook_queue)
   \<and> first_admitted \<in> set (schedule_states (ticks 0) first_admitted)
   \<and> int (fcard (processing first_admitted)) < concurrency first_admitted
   \<and> queue first_admitted \<noteq> []
   \<and> \<not> (int (fcard (processing three_enqueued)) < concurrency three_enqueued
         \<and> queue three_enqueued \<noteq> [])
   \<and> scheduleProcessing (ticks 30) three_enqueued = three_enqueued"
proof -
  have h1: "int (fcard (processing (new_queue 2 10 :: nat webhook_queue)))
     \<le> concurrency (new_queue 2 10 :: nat webhook_queue)"
    by (simp add: new_queue_def fcard_fempty)
  have h2: "first_admitted \<in> set (schedule_states (ticks 0) first_admitted)"
    by (subst schedule_states.simps)
      (simp add: first_admitted_def schedule_guard_def new_queue_def fcard_fempty)
  have h3: "\<not> (int (fcard (processing three_enqueued)) < concurrency three_enqueued
         \<and> queue three_enqueued \<noteq> [])"
    unfolding three_enqueued_def by code_simp
  show ?thesis
    using h1 h2 h3
      processing_within_concurrency [of "new_queue 2 10"
        "[Enqueue (Val 1) 0 (ticks 0), Enqueue (Val 2) 0 (ticks 10),
          Enqueue (Val 3) 0 (ticks 20)]" idle_pool "ticks 0" first_admitted 2 10]
      processing_within_concurrency [of "new_queue 2 10" "[]" idle_pool "ticks 30" three_enqueued 2 10]
    by (simp add: three_enqueued_def)
qed

text \<open>
  The limit is on the size of \<^verbatim>\<open>processing\<close>, not on the number of open chains: turns
  that draw the same slot identifier add one member to the set and start a chain each.
\<close>

lemma open_chains_beyond_processing:
  "fcard (processing (snd (exec [Enqueue (Val 1) 0 (ticks 0), Enqueue (Val 2) 0 (ticks 0),
                                 Enqueue (Val 3) 0 (ticks 0)]
                             (idle_pool, new_queue 2 10)))) = 1
   \<and> in_progress (snd (exec [Enqueue (Val 1) 0 (ticks 0), Enqueue (Val 2) 0 (ticks 0),
                              Enqueue (Val 3) 0 (ticks 0)]
                          (idle_pool, new_queue 2 10))) = [Val 1, Val 2, Val (3::nat)]"
  by code_simp

section \<open>The retry policy\<close>

lemma attemptProcessing_fail:
  "u < double_0_1 \<Longrightarrow> attemptProcessing u it = (Inl ProcessingFailed, [Attempted, LogAttemptFailed it])"
  by (simp add: attemptProcessing_def)

lemma attemptProcessing_ok:
  "\<not> u < double_0_1 \<Longrightarrow> attemptProcessing u it = (Inr it, [Attempted])"
  by (simp add: attemptProcessing_def)

text \<open>
  C4. \<^verbatim>\<open>processWithRetry\<close> makes at most two attempts. When the first succeeds it
  returns after the first timer and that attempt, with nothing after it. When the first
  fails it waits for one more timer and makes one more attempt; when that one fails too
  the error is returned to the caller and nothing further is attempted.
\<close>

theorem processWithRetry_policy:
  "count_list (snd (processWithRetry e it)) Attempted \<le> 2
   \<and> (\<not> draw1 e < double_0_1 \<longrightarrow>
        processWithRetry e it = (Inr it, [Waited (delay1 e), Attempted]))
   \<and> (draw1 e < double_0_1 \<and> \<not> draw2 e < double_0_1 \<longrightarrow>
        processWithRetry e it =
          (Inr it, [Waited (delay1 e), Attempted, LogAttemptFailed it,
                    LogRetrying it, Waited (delay2 e), Attempted]))
   \<and> (draw1 e < double_0_1 \<and> draw2 e < double_0_1 \<longrightarrow>
        processWithRetry e it =
          (Inl ProcessingFailed,
           [Waited (delay1 e), Attempted, LogAttemptFailed it,
            LogRetrying it, Waited (delay2 e), Attempted, LogAttemptFailed it,
            LogFailedAfterRetry it]))"
  by (cases "draw1 e < double_0_1"; cases "draw2 e < double_0_1")
    (simp_all add: processWithRetry_def simulateProcessingDelay_def
      attemptProcessing_fail attemptProcessing_ok)

theorem processWithRetry_policy_witness:
  "\<not> draw1 (retry_env (1/2) 0) < double_0_1
   \<and> processWithRetry (retry_env (1/2) 0) (Val (7::nat)) = (Inr (Val 7), [Waited 100, Attempted])
   \<and> draw1 (retry_env 0 (1/2)) < double_0_1 \<and> \<not> draw2 (retry_env 0 (1/2)) < double_0_1
   \<and> processWithRetry (retry_env 0 (1/2)) (Val (7::nat)) =
        (Inr (Val 7), [Waited 100, Attempted, LogAttemptFailed (Val 7),
                       LogRetrying (Val 7), Waited 300, Attempted])
   \<and> draw1 (retry_env 0 0) < double_0_1 \<and> draw2 (retry_env 0 0) < double_0_1
   \<and> processWithRetry (retry_env 0 0) (Val (7::nat)) =
        (Inl ProcessingFailed,
         [Waited 100, Attempted, LogAttemptFailed (Val 7),
          LogRetrying (Val 7), Waited 300, Attempted, LogAttemptFailed (Val 7),
          LogFailedAfterRetry (Val 7)])"
proof -
  have h1: "\<not> draw1 (retry_env (1/2) 0) < double_0_1"
    by (simp add: retry_env_def double_0_1_def)
  have h2: "draw1 (retry_env 0 (1/2)) < double_0_1 \<and> \<not> draw2 (retry_env 0 (1/2)) < double_0_1"
    by (simp add: retry_env_def double_0_1_def)
  have h3: "draw1 (retry_env 0 0) < double_0_1 \<and> draw2 (retry_env 0 0) < double_0_1"
    by (simp add: retry_env_def double_0_1_def)
  show ?thesis
    using h1 h2 h3
      processWithRetry_policy [of "retry_env (1/2) 0" "Val (7::nat)"]
      processWithRetry_policy [of "retry_env 0 (1/2)" "Val (7::nat)"]
      processWithRetry_policy [of "retry_env 0 0" "Val (7::nat)"]
    by (simp add: retry_env_def)
qed

section \<open>Settlement of a dispatched invocation\<close>

lemma settle_enabled:
  "k < length (invocations s) \<Longrightarrow> \<not> settled (invocations s ! k) \<Longrightarrow>
   invocations (settle k out now s) = (invocations s)[k := (invocations s ! k)\<lparr>settled := True\<rparr>]
   \<and> calls (settle k out now s) =
       calls s @ (if out = Fulfilled
                  then [IncProcessed,
                        ObserveProcessingTime (now - startTime (invocations s ! k)),
                        LogProcessed (inv_item (invocations s ! k))]
                  else [LogProcessingError (inv_item (invocations s ! k))])"
  by (cases out) (simp_all add: settle_def processItem_end_def Let_def)

lemma release_eq:
  "release k s =
     emit (SetQueueLength
            (int (length (queue s)) + int (fcard (processing s |-| {|inv_id (invocations s ! k)|}))))
       (s\<lparr>invocations := take k (invocations s) @ drop (Suc k) (invocations s),
          processing := processing s |-| {|inv_id (invocations s ! k)|}\<rparr>)"
  by (simp add: release_def Let_def totalItems_def)

lemma scheduleProcessing_count:
  "count_list (calls (scheduleProcessing env s)) IncProcessed = count_list (calls s) IncProcessed"
proof -
  obtain es where es: "calls (scheduleProcessing env s) = calls s @ es"
    "set es \<subseteq> range SetQueueLength \<union> range ObserveQueueTime \<union> range LogDequeued \<union> range ProcessorCalled"
    using scheduleProcessing_calls by blast
  have "IncProcessed \<notin> set es" using es(2) by auto
  then show ?thesis using es(1) by (simp add: count_list_append count_list_absent)
qed

text \<open>
  C5. When the processor's promise of an open chain settles, with either outcome, the
  chain is marked settled and nothing else of the queue changes; only a success reports
  \<^verbatim>\<open>incProcessed\<close>. The \<^verbatim>\<open>finally\<close> callback of a settled chain deletes the chain's
  identifier from \<^verbatim>\<open>processing\<close>, reports the depth and runs the dispatch loop, which
  leaves no free slot while an item is queued; it reports no \<^verbatim>\<open>incProcessed\<close>.
\<close>

theorem settlement_releases_slot:
  "(k < length (invocations s) \<and> \<not> settled (invocations s ! k) \<longrightarrow>
      queue (settle k out now s) = queue s
      \<and> processing (settle k out now s) = processing s
      \<and> invocations (settle k out now s) =
          (invocations s)[k := (invocations s ! k)\<lparr>settled := True\<rparr>]
      \<and> calls (settle k out now s) =
          calls s @ (if out = Fulfilled
                     then [IncProcessed,
                           ObserveProcessingTime (now - startTime (invocations s ! k)),
                           LogProcessed (inv_item (invocations s ! k))]
                     else [LogProcessingError (inv_item (invocations s ! k))])
      \<and> count_list (calls (settle k out now s)) IncProcessed =
          count_list (calls s) IncProcessed + (if out = Fulfilled then 1 else 0))
   \<and> (k < length (invocations s) \<and> settled (invocations s ! k) \<longrightarrow>
      finalize k env s =
        scheduleProcessing env
          (emit (SetQueueLength
                  (int (length (queue s)) +
                   int (fcard (processing s |-| {|inv_id (invocations s ! k)|}))))
             (s\<lparr>invocations := take k (invocations s) @ drop (Suc k) (invocations s),
                processing := processing s |-| {|inv_id (invocations s ! k)|}\<rparr>))
      \<and> \<not> (int (fcard (processing (finalize k env s))) < concurrency (finalize k env s)
            \<and> queue (finalize k env s) \<noteq> [])
      \<and> count_list (calls (finalize k env s)) IncProcessed = count_list (calls s) IncProcessed)"
proof (intro conjI impI)
  assume a: "k < length (invocations s) \<and> \<not> settled (invocations s ! k)"
  show "queue (settle k out now s) = queue s" "processing (settle k out now s) = processing s"
    by simp_all
  from a show i: "invocations (settle k out now s) =
          (invocations s)[k := (invocations s ! k)\<lparr>settled := True\<rparr>]"
    by (simp add: settle_enabled)
  from a show c: "calls (settle k out now s) =
          calls s @ (if out = Fulfilled
                     then [IncProcessed,
                           ObserveProcessingTime (now - startTime (invocations s ! k)),
                           LogProcessed (inv_item (invocations s ! k))]
                     else [LogProcessingError (inv_item (invocations s ! k))])"
    using settle_enabled [of k s out now] by blast
  show "count_list (calls (settle k out now s)) IncProcessed =
          count_list (calls s) IncProcessed + (if out = Fulfilled then 1 else 0)"
    by (subst c) (simp add: count_list_append)
next
  assume a: "k < length (invocations s) \<and> settled (invocations s ! k)"
  then have f: "finalize k env s = scheduleProcessing env (release k s)"
    by (simp add: finalize_def)
  then show "finalize k env s =
        scheduleProcessing env
          (emit (SetQueueLength
                  (int (length (queue s)) +
                   int (fcard (processing s |-| {|inv_id (invocations s ! k)|}))))
             (s\<lparr>invocations := take k (invocations s) @ drop (Suc k) (invocations s),
                processing := processing s |-| {|inv_id (invocations s ! k)|}\<rparr>))"
    by (simp add: release_eq)
  have "\<not> schedule_guard (finalize k env s)"
    unfolding f by (rule scheduleProcessing_stops)
  then show "\<not> (int (fcard (processing (finalize k env s))) < concurrency (finalize k env s)
            \<and> queue (finalize k env s) \<noteq> [])"
    by (simp add: schedule_guard_def)
  show "count_list (calls (finalize k env s)) IncProcessed = count_list (calls s) IncProcessed"
    unfolding f by (simp add: scheduleProcessing_count release_eq count_list_append)
qed

theorem settlement_releases_slot_witness:
  "0 < length (invocations three_enqueued) \<and> \<not> settled (invocations three_enqueued ! 0)
   \<and> calls (settle 0 Rejected 5 three_enqueued) =
       calls three_enqueued @ [LogProcessingError (inv_item (invocations three_enqueued ! 0))]
   \<and> count_list (calls (settle 0 Rejected 5 three_enqueued)) IncProcessed =
       count_list (calls three_enqueued) IncProcessed
   \<and> 0 < length (invocations (settle 0 Rejected 5 three_enqueued))
   \<and> settled (invocations (settle 0 Rejected 5 three_enqueued) ! 0)
   \<and> \<not> (int (fcard (processing (finalize 0 (ticks 20) (settle 0 Rejected 5 three_enqueued))))
          < concurrency (finalize 0 (ticks 20) (settle 0 Rejected 5 three_enqueued))
         \<and> queue (finalize 0 (ticks 20) (settle 0 Rejected 5 three_enqueued)) \<noteq> [])
   \<and> count_list (calls (finalize 0 (ticks 20) (settle 0 Rejected 5 three_enqueued))) IncProcessed =
       count_list (calls three_enqueued) IncProcessed
   \<and> map inv_item (invocations (finalize 0 (ticks 20) (settle 0 Rejected 5 three_enqueued))) =
       [Val 2, Val 3]"
proof -
  have h1: "0 < length (invocations three_enqueued) \<and> \<not> settled (invocations three_enqueued ! 0)"
    unfolding three_enqueued_def by code_simp
  have h2: "0 < length (invocations (settle 0 Rejected 5 three_enqueued))
     \<and> settled (invocations (settle 0 Rejected 5 three_enqueued) ! 0)"
    unfolding three_enqueued_def by code_simp
  have h3: "map inv_item (invocations (finalize 0 (ticks 20) (settle 0 Rejected 5 three_enqueued))) =
       [Val 2, Val 3]"
    unfolding three_enqueued_def by code_simp
  note t1 = settlement_releases_slot [of 0 three_enqueued Rejected 5 "ticks 20",
      THEN conjunct1, THEN mp, OF h1]
  note t2 = settlement_releases_slot [of 0 "settle 0 Rejected 5 three_enqueued" Rejected 5 "ticks 20",
      THEN conjunct2, THEN mp, OF h2]
  have c1: "calls (settle 0 Rejected 5 three_enqueued) =
       calls three_enqueued @ [LogProcessingError (inv_item (invocations three_enqueued ! 0))]"
    using t1 [THEN conjunct2, THEN conjunct2, THEN conjunct2, THEN conjunct1] by simp
  have c2: "count_list (calls (settle 0 Rejected 5 three_enqueued)) IncProcessed =
       count_list (calls three_enqueued) IncProcessed"
    using t1 [THEN conjunct2, THEN conjunct2, THEN conjunct2, THEN conjunct2] by simp
  have c3: "\<not> (int (fcard (processing (finalize 0 (ticks 20) (settle 0 Rejected 5 three_enqueued))))
          < concurrency (finalize 0 (ticks 20) (settle 0 Rejected 5 three_enqueued))
         \<and> queue (finalize 0 (ticks 20) (settle 0 Rejected 5 three_enqueued)) \<noteq> [])"
    by (rule t2 [THEN conjunct2, THEN conjunct1])
  have c4: "count_list (calls (finalize 0 (ticks 20) (settle 0 Rejected 5 three_enqueued))) IncProcessed =
       count_list (calls three_enqueued) IncProcessed"
    using t2 [THEN conjunct2, THEN conjunct2] c2 by (rule trans)
  from h1 c1 c2 h2 c3 c4 h3 show ?thesis by blast
qed

section \<open>The worker pool and the queue's own dispatch\<close>

text \<open>
  C8. With the pool built with the default options and started, the slot
  \<^verbatim>\<open>processNext\<close> is a no-op, yet \<^verbatim>\<open>enqueue\<close> still runs the dispatch loop: the first
  item is removed from \<^verbatim>\<open>queue\<close> and processed by the queue itself, and the worker then
  removes the second one. Both mechanisms take items from the same queue.
\<close>

theorem built_in_dispatch_still_dequeues:
  "processNext_noop (snd pooled) \<and> running (fst pooled) \<and> workers (fst pooled) = [Sleeping]
   \<and> queue (snd (step (Enqueue (Val 7) 0 (ticks 0)) pooled)) = []
   \<and> fcard (processing (snd (step (Enqueue (Val 7) 0 (ticks 0)) pooled))) = 1
   \<and> invocations (snd (step (Enqueue (Val 7) 0 (ticks 0)) pooled)) =
       [\<lparr>inv_id = 0, inv_item = Val 7, startTime = 0, settled = False\<rparr>]
   \<and> dequeued (calls (snd pooled_run)) = [Val 7, Val 8]
   \<and> invocations (snd pooled_run) =
       [\<lparr>inv_id = 0, inv_item = Val 7, startTime = 0, settled = False\<rparr>]
   \<and> workers (fst pooled_run) = [Busy (Val 8) 0]"
  unfolding pooled_run_def pooled_def by code_simp

text \<open>
  C9. A worker that takes an item and processes it through \<^verbatim>\<open>processItem\<close> leaves
  \<^verbatim>\<open>processing\<close> as it is, as does every other step of the pool: \<^verbatim>\<open>totalItems\<close> no
  longer counts the item, and \<^verbatim>\<open>drain\<close> resolves at once when the item was the last one
  queued and \<^verbatim>\<open>processing\<close> is empty, while the worker is still busy with it.
\<close>

theorem worker_processing_untracked:
  "(running p \<and> queue q = e # rest \<and> item e = Val x \<longrightarrow>
      fst (workerLoop_head tdeq tstart p q) = Busy (Val x) tstart
      \<and> queue (snd (workerLoop_head tdeq tstart p q)) = rest
      \<and> processing (snd (workerLoop_head tdeq tstart p q)) = processing q
      \<and> invocations (snd (workerLoop_head tdeq tstart p q)) = invocations q
      \<and> totalItems (snd (workerLoop_head tdeq tstart p q)) =
          int (length rest) + int (fcard (processing q))
      \<and> (drain (snd (workerLoop_head tdeq tstart p q)) = DrainResolved
           \<longleftrightarrow> rest = [] \<and> processing q = {||}))
   \<and> processing (snd (start env (p, q))) = processing q
   \<and> processing (snd (worker_wake i tdeq tstart (p, q))) = processing q
   \<and> processing (snd (worker_settle i out now (p, q))) = processing q
   \<and> processing (snd (worker_resume i tdeq tstart (p, q))) = processing q"
proof (intro conjI impI)
  assume a: "running p \<and> queue q = e # rest \<and> item e = Val x"
  then show "fst (workerLoop_head tdeq tstart p q) = Busy (Val x) tstart"
    by (simp add: workerLoop_head_def dequeue_Cons)
  from a show r: "queue (snd (workerLoop_head tdeq tstart p q)) = rest" by simp
  show pr: "processing (snd (workerLoop_head tdeq tstart p q)) = processing q" by simp
  show "invocations (snd (workerLoop_head tdeq tstart p q)) = invocations q" by simp
  show "totalItems (snd (workerLoop_head tdeq tstart p q)) =
          int (length rest) + int (fcard (processing q))"
    by (simp only: totalItems_def r pr)
  show "drain (snd (workerLoop_head tdeq tstart p q)) = DrainResolved
           \<longleftrightarrow> rest = [] \<and> processing q = {||}"
    using a by (simp add: drain_def idle_def)
next
  show "processing (snd (start env (p, q))) = processing q"
    using pool_frame_start [of q env p] by (simp add: pool_frame_def)
  show "processing (snd (worker_wake i tdeq tstart (p, q))) = processing q"
    using pool_frame_wake [of q i tdeq tstart p] by (simp add: pool_frame_def)
  show "processing (snd (worker_settle i out now (p, q))) = processing q"
    using pool_frame_settle [of q i out now p] by (simp add: pool_frame_def)
  show "processing (snd (worker_resume i tdeq tstart (p, q))) = processing q"
    using pool_frame_resume [of q i tdeq tstart p] by (simp add: pool_frame_def)
qed

theorem worker_processing_untracked_witness:
  "running (fst pooled) \<and> queue one_waiting = [\<lparr>item = Val 8, enqueuedAt = 0\<rparr>]
   \<and> item \<lparr>item = Val (8::nat), enqueuedAt = 0\<rparr> = Val 8
   \<and> fst (workerLoop_head 0 0 (fst pooled) one_waiting) = Busy (Val 8) 0
   \<and> processing (snd (workerLoop_head 0 0 (fst pooled) one_waiting)) = processing one_waiting
   \<and> totalItems (snd (workerLoop_head 0 0 (fst pooled) one_waiting)) = 0
   \<and> drain (snd (workerLoop_head 0 0 (fst pooled) one_waiting)) = DrainResolved"
proof -
  have h1: "running (fst pooled)"
    unfolding pooled_def by code_simp
  have h2: "queue one_waiting = [\<lparr>item = Val 8, enqueuedAt = 0\<rparr>]" "processing one_waiting = {||}"
    by (simp_all add: one_waiting_def new_queue_def)
  show ?thesis
    using h1 h2
      worker_processing_untracked [of "fst pooled" one_waiting "\<lparr>item = Val 8, enqueuedAt = 0\<rparr>"
        "[]" 8 0 0]
    by (simp add: fcard_fempty)
qed

section \<open>Facts about the call log\<close>

lemma log_append [simp]:
  "enqueued (xs @ ys) = enqueued xs @ enqueued ys"
  "dequeued (xs @ ys) = dequeued xs @ dequeued ys"
  "completed (xs @ ys) = completed xs @ completed ys"
  "started (xs @ ys) = started xs @ started ys"
  by (simp_all add: enqueued_def dequeued_def completed_def started_def)

lemma log_Nil [simp]: "enqueued [] = []" "dequeued [] = []" "completed [] = []" "started [] = []"
  by (simp_all add: enqueued_def dequeued_def completed_def started_def)

lemma log_Cons [simp]:
  "enqueued (e # es) = (case e of LogEnqueued x \<Rightarrow> [x] | _ \<Rightarrow> []) @ enqueued es"
  "dequeued (e # es) = (case e of LogDequeued x \<Rightarrow> [x] | _ \<Rightarrow> []) @ dequeued es"
  "completed (e # es) =
     (case e of LogProcessed x \<Rightarrow> [x] | LogProcessingError x \<Rightarrow> [x] | _ \<Rightarrow> []) @ completed es"
  "started (e # es) = (case e of ProcessorCalled x \<Rightarrow> [x] | _ \<Rightarrow> []) @ started es"
  by (simp_all add: enqueued_def dequeued_def completed_def started_def)

lemma schedule_turn_Cons:
  "queue s = e # rest \<Longrightarrow>
   queue (schedule_turn tk s) = rest
   \<and> invocations (schedule_turn tk s) =
       invocations s @ [\<lparr>inv_id = slot_id tk, inv_item = item e,
                          startTime = start_now tk, settled = False\<rparr>]
   \<and> enqueued (calls (schedule_turn tk s)) = enqueued (calls s)
   \<and> completed (calls (schedule_turn tk s)) = completed (calls s)
   \<and> dequeued (calls (schedule_turn tk s)) = dequeued (calls s) @ [item e]
   \<and> started (calls (schedule_turn tk s)) = started (calls s) @ [item e]"
  by (simp add: schedule_turn_def dequeue_Cons processItem_begin_def Let_def)

lemma in_progress_turn:
  "queue s = e # rest \<Longrightarrow> in_progress (schedule_turn tk s) = in_progress s @ [item e]"
  by (simp add: in_progress_def schedule_turn_Cons)


section \<open>Tracking of dispatched items\<close>

lemma nth_split:
  "k < length l \<Longrightarrow> l = take k l @ (l ! k) # drop (Suc k) l"
  by (rule id_take_nth_drop)

lemma in_progress_settle:
  assumes "k < length (invocations q)" "\<not> settled (invocations q ! k)"
  shows "mset (in_progress q) =
           mset (in_progress (settle k out now q)) + {#inv_item (invocations q ! k)#}"
proof -
  let ?l = "invocations q"
  have a: "?l = take k ?l @ (?l ! k) # drop (Suc k) ?l"
    using assms(1) by (rule nth_split)
  have b: "invocations (settle k out now q) =
      take k ?l @ ((?l ! k)\<lparr>settled := True\<rparr>) # drop (Suc k) ?l"
    using assms by (simp add: settle_enabled upd_conv_take_nth_drop)
  have "mset (in_progress q) =
      mset (map inv_item (filter (\<lambda>i. \<not> settled i) (take k ?l @ (?l ! k) # drop (Suc k) ?l)))"
    unfolding in_progress_def using a by simp
  then show ?thesis
    using assms(2) by (simp add: in_progress_def b)
qed

lemma completed_settle:
  assumes "k < length (invocations q)" "\<not> settled (invocations q ! k)"
  shows "completed (calls (settle k out now q)) =
           completed (calls q) @ [inv_item (invocations q ! k)]"
    and "enqueued (calls (settle k out now q)) = enqueued (calls q)"
    and "started (calls (settle k out now q)) = started (calls q)"
  using settle_enabled [OF assms, of out now] by (cases out; simp)+

lemma ids_settle: "map inv_id (invocations (settle k out now q)) = map inv_id (invocations q)"
proof (cases "k < length (invocations q) \<and> \<not> settled (invocations q ! k)")
  case True
  then show ?thesis by (simp add: settle_enabled map_update list_update_same_conv)
next
  case False
  then show ?thesis by (auto simp: settle_def)
qed

lemma tracked_settle: "tracked q \<Longrightarrow> tracked (settle k out now q)"
proof (cases "k < length (invocations q) \<and> \<not> settled (invocations q ! k)")
  case True
  assume t: "tracked q"
  from True have k: "k < length (invocations q)" and u: "\<not> settled (invocations q ! k)" by simp_all
  show ?thesis
    using t completed_settle [OF k u, of out now] in_progress_settle [OF k u, of out now]
    by (simp add: tracked_def ids_settle)
next
  case False
  assume "tracked q"
  with False show ?thesis by (auto simp: settle_def)
qed

lemma tracked_turn:
  assumes "schedule_guard s" "tracked s" "slot_id tk |\<notin>| processing s"
  shows "tracked (schedule_turn tk s)"
proof -
  obtain e rest where q: "queue s = e # rest"
    using assms(1) by (cases "queue s") (simp_all add: schedule_guard_def)
  show ?thesis
    using assms(2,3) schedule_turn_Cons [OF q, of tk] in_progress_turn [OF q, of tk] q
    by (simp add: tracked_def)
qed

lemma tracked_scheduleProcessing:
  "tracked s \<Longrightarrow> schedule_fresh env s \<Longrightarrow> tracked (scheduleProcessing env s)"
proof (induction env s rule: scheduleProcessing.induct)
  case (1 env s)
  show ?case
  proof (cases "schedule_guard s")
    case True
    from True "1.prems"(2) have f: "slot_id (env 0) |\<notin>| processing s"
      and g: "schedule_fresh (\<lambda>n. env (Suc n)) (schedule_turn (env 0) s)"
      by (subst (asm) schedule_fresh.simps, simp)+
    have "tracked (schedule_turn (env 0) s)"
      using True "1.prems"(1) f by (rule tracked_turn)
    then have "tracked (scheduleProcessing (\<lambda>n. env (Suc n)) (schedule_turn (env 0) s))"
      using g by (rule "1.IH" [OF True])
    then show ?thesis using True by (subst scheduleProcessing.simps) simp
  next
    case False
    with 1 show ?thesis by (subst scheduleProcessing.simps) simp
  qed
qed

lemma tracked_release:
  assumes "tracked q" "k < length (invocations q)" "settled (invocations q ! k)"
  shows "tracked (release k q)"
proof -
  let ?l = "invocations q"
  have a: "?l = take k ?l @ (?l ! k) # drop (Suc k) ?l"
    using assms(2) by (rule nth_split)
  have d: "distinct (map inv_id (take k ?l @ (?l ! k) # drop (Suc k) ?l))"
    and p: "fset (processing q) = set (map inv_id (take k ?l @ (?l ! k) # drop (Suc k) ?l))"
    using assms(1) a by (simp_all add: tracked_def)
  have ip: "in_progress q =
      map inv_item (filter (\<lambda>i. \<not> settled i) (take k ?l @ (?l ! k) # drop (Suc k) ?l))"
    unfolding in_progress_def using a by simp
  have "in_progress (release k q) = in_progress q"
    using assms(3) by (simp add: ip) (simp add: in_progress_def)
  moreover have "distinct (map inv_id (take k ?l @ drop (Suc k) ?l))"
    using d by simp
  moreover have "fset (processing q) - {inv_id (?l ! k)} = set (map inv_id (take k ?l @ drop (Suc k) ?l))"
    using d p by auto
  ultimately show ?thesis
    using assms(1) by (simp add: tracked_def release_eq in_progress_def)
qed

lemma exec_Cons [simp]: "exec (a # acts) sys = exec acts (step a sys)"
  by (simp add: exec_def)

lemma fresh_run_snoc:
  "fresh_run (acts @ [a]) sys \<longleftrightarrow> fresh_run acts sys \<and> fresh_step a (exec acts sys)"
  by (induction acts arbitrary: sys) simp_all

lemma tracked_new_queue: "tracked (new_queue c t)"
  by (simp add: tracked_def new_queue_def in_progress_def)

lemma tracked_admit: "tracked q \<Longrightarrow> tracked (admit it now (emit IncReceived q))"
  by (simp add: tracked_def in_progress_def)

lemma tracked_step:
  assumes "internal a" "fresh_step a (p, q)" "tracked q"
  shows "tracked (snd (step a (p, q)))"
proof (cases a)
  case (Enqueue it now env)
  show ?thesis
  proof (cases "over_threshold q")
    case True
    then show ?thesis
      using assms(3) Enqueue by (simp add: enqueue_rejected tracked_def in_progress_def)
  next
    case False
    then have "schedule_fresh env (admit it now (emit IncReceived q))"
      using assms(2) Enqueue by simp
    with tracked_admit [OF assms(3)] have
      "tracked (scheduleProcessing env (admit it now (emit IncReceived q)))"
      by (rule tracked_scheduleProcessing)
    then show ?thesis using False Enqueue by (simp add: enqueue_accepted)
  qed
next
  case (ProcessNext env)
  then show ?thesis
    using assms(2,3) by (simp add: processNext_def tracked_scheduleProcessing)
next
  case (Settle k out now)
  then show ?thesis using assms(3) by (simp add: tracked_settle)
next
  case (Finalize k env)
  show ?thesis
  proof (cases "k < length (invocations q) \<and> settled (invocations q ! k)")
    case True
    then have "tracked (release k q)" using assms(3) by (simp add: tracked_release)
    moreover have "schedule_fresh env (release k q)" using True assms(2) Finalize by simp
    ultimately have "tracked (scheduleProcessing env (release k q))"
      by (rule tracked_scheduleProcessing)
    then show ?thesis using True Finalize by (simp add: finalize_def)
  next
    case False
    then show ?thesis using assms(3) Finalize by (auto simp: finalize_def)
  qed
qed (use assms(1) in simp_all)

lemma tracked_exec:
  "list_all internal acts \<Longrightarrow> fresh_run acts sys \<Longrightarrow> tracked (snd sys)
   \<Longrightarrow> tracked (snd (exec acts sys))"
proof (induction acts rule: rev_induct)
  case Nil
  then show ?case by simp
next
  case (snoc a acts)
  from snoc.prems have i: "internal a" and f: "fresh_step a (exec acts sys)"
    and t: "tracked (snd (exec acts sys))"
    using snoc.IH by (simp_all add: fresh_run_snoc)
  show ?case
    using tracked_step [of a "fst (exec acts sys)" "snd (exec acts sys)"] i f t by simp
qed

lemma tracked_idle:
  assumes "tracked q" "queue q = []" "processing q = {||}"
  shows "invocations q = [] \<and> mset (enqueued (calls q)) = mset (completed (calls q))"
proof -
  have "invocations q = []" using assms(1,3) by (simp add: tracked_def)
  then show ?thesis using assms(1,2) by (simp add: tracked_def in_progress_def)
qed

lemma drain_iff: "drain q = DrainResolved \<longleftrightarrow> queue q = [] \<and> processing q = {||}"
  by (simp add: drain_def idle_def)

lemma checkQueue_iff:
  "checkQueue q DrainPending = DrainResolved \<longleftrightarrow> queue q = [] \<and> processing q = {||}"
  by (simp add: checkQueue_def idle_def)


section \<open>Drain\<close>

text \<open>
  \<^verbatim>\<open>drain\<close> resolves at once exactly when \<^verbatim>\<open>queue\<close> and \<^verbatim>\<open>processing\<close> are both
  empty, and a tick of its timer resolves it exactly when both are empty. In a run from a
  new queue in which only the queue's own dispatch removes items and every turn of the
  dispatch loop draws a slot identifier not in use, a resolution finds no open chain, and
  every accepted item has completed or failed for good.
\<close>

lemma drain_resolves_when_idle:
  "(drain q = DrainResolved \<longleftrightarrow> queue q = [] \<and> processing q = {||})
   \<and> (checkQueue q DrainPending = DrainResolved \<longleftrightarrow> queue q = [] \<and> processing q = {||})
   \<and> (list_all internal acts \<and> fresh_run acts (p, new_queue c t) \<and>
       (drain (snd (exec acts (p, new_queue c t))) = DrainResolved \<or>
        checkQueue (snd (exec acts (p, new_queue c t))) DrainPending = DrainResolved) \<longrightarrow>
         queue (snd (exec acts (p, new_queue c t))) = []
         \<and> invocations (snd (exec acts (p, new_queue c t))) = []
         \<and> mset (enqueued (calls (snd (exec acts (p, new_queue c t))))) =
             mset (completed (calls (snd (exec acts (p, new_queue c t))))))"
proof (intro conjI impI)
  show "drain q = DrainResolved \<longleftrightarrow> queue q = [] \<and> processing q = {||}" by (rule drain_iff)
  show "checkQueue q DrainPending = DrainResolved \<longleftrightarrow> queue q = [] \<and> processing q = {||}"
    by (rule checkQueue_iff)
next
  let ?q = "snd (exec acts (p, new_queue c t))"
  assume a: "list_all internal acts \<and> fresh_run acts (p, new_queue c t) \<and>
       (drain ?q = DrainResolved \<or> checkQueue ?q DrainPending = DrainResolved)"
  then have t: "tracked ?q"
    using tracked_exec [of acts "(p, new_queue c t)"] by (simp add: tracked_new_queue)
  from a have i: "queue ?q = []" "processing ?q = {||}"
    by (auto simp: drain_iff checkQueue_iff)
  from i(1) show "queue ?q = []" .
  from tracked_idle [OF t i] show "invocations ?q = []"
    and "mset (enqueued (calls ?q)) = mset (completed (calls ?q))"
    by simp_all
qed

lemma drain_resolves_when_idle_two_items:
  "list_all internal two_items_run \<and> fresh_run two_items_run (idle_pool, new_queue 1 5)
   \<and> drain (snd (exec two_items_run (idle_pool, new_queue 1 5))) = DrainResolved
   \<and> queue (snd (exec two_items_run (idle_pool, new_queue 1 5))) = []
   \<and> invocations (snd (exec two_items_run (idle_pool, new_queue 1 5))) = []
   \<and> mset (enqueued (calls (snd (exec two_items_run (idle_pool, new_queue 1 5))))) =
       mset (completed (calls (snd (exec two_items_run (idle_pool, new_queue 1 5)))))
   \<and> drain (snd (exec (take 5 two_items_run) (idle_pool, new_queue 1 5))) = DrainPending"
proof -
  have h1: "list_all internal two_items_run \<and> fresh_run two_items_run (idle_pool, new_queue 1 5)"
    unfolding two_items_run_def by code_simp
  have h2: "drain (snd (exec two_items_run (idle_pool, new_queue 1 5))) = DrainResolved"
    unfolding two_items_run_def by code_simp
  have h3: "drain (snd (exec (take 5 two_items_run) (idle_pool, new_queue 1 5))) = DrainPending"
    unfolding two_items_run_def by code_simp
  from h1 h2 h3
    drain_resolves_when_idle [of "snd (exec two_items_run (idle_pool, new_queue 1 5))"
      two_items_run idle_pool 1 5]
  show ?thesis by blast
qed


text \<open>
  C3. On the queue the entry point builds, a queue handed to a started pool, \<^verbatim>\<open>drain\<close>
  resolves before every enqueued item has completed: both items have left \<^verbatim>\<open>queue\<close>, the
  first was dispatched by the queue, has completed and released its slot, and \<^verbatim>\<open>drain\<close>
  resolves while the worker is still busy with the second, for which no slot was taken.
\<close>

theorem drain_resolves_while_worker_busy:
  "drain (snd pooled_drained) = DrainResolved
   \<and> enqueued (calls (snd pooled_drained)) = [Val 7, Val 8]
   \<and> completed (calls (snd pooled_drained)) = [Val 7]
   \<and> workers (fst pooled_drained) = [Busy (Val 8) 0]"
  unfolding pooled_drained_def pooled_def by code_simp

text \<open>
  The same happens when two turns of the dispatch loop draw the same slot identifier:
  the first \<^verbatim>\<open>finally\<close> callback deletes the identifier both chains share.
\<close>

lemma drain_resolves_with_shared_identifier:
  "drain (snd (exec [Enqueue (Val 1) 0 (ticks 0), Enqueue (Val 2) 0 (ticks 0),
                     Settle 0 Fulfilled 5, Finalize 0 (ticks 0)]
                 (idle_pool, new_queue 2 10))) = DrainResolved
   \<and> in_progress (snd (exec [Enqueue (Val 1) 0 (ticks 0), Enqueue (Val 2) 0 (ticks 0),
                     Settle 0 Fulfilled 5, Finalize 0 (ticks 0)]
                 (idle_pool, new_queue 2 10))) = [Val (2::nat)]"
  by code_simp

section \<open>First in, first out\<close>

lemma fifo_dequeue: "fifo q \<Longrightarrow> fifo (snd (dequeue now q))"
  by (cases "queue q") (simp_all add: fifo_def dequeue_Nil dequeue_Cons)

lemma fifo_turn: "schedule_guard s \<Longrightarrow> fifo s \<Longrightarrow> fifo (schedule_turn tk s)"
  by (cases "queue s") (simp_all add: fifo_def schedule_guard_def schedule_turn_Cons)

lemma fifo_scheduleProcessing: "fifo s \<Longrightarrow> fifo (scheduleProcessing env s)"
proof (induction env s rule: scheduleProcessing.induct)
  case (1 env s)
  show ?case
  proof (cases "schedule_guard s")
    case True
    with 1 show ?thesis by (subst scheduleProcessing.simps) (simp add: fifo_turn)
  next
    case False
    with 1 show ?thesis by (subst scheduleProcessing.simps) simp
  qed
qed

lemma fifo_enqueue: "fifo q \<Longrightarrow> fifo (snd (enqueue it now env q))"
proof (cases "over_threshold q")
  case True
  assume "fifo q"
  with True show ?thesis by (simp add: enqueue_rejected fifo_def)
next
  case False
  assume "fifo q"
  then have "fifo (admit it now (emit IncReceived q))" by (simp add: fifo_def)
  then show ?thesis using False by (simp add: enqueue_accepted fifo_scheduleProcessing)
qed

lemma fifo_processItem_end: "fifo q \<Longrightarrow> fifo (snd (processItem_end it st out now q))"
  by (cases out) (simp_all add: fifo_def processItem_end_def Let_def)

lemma fifo_settle: "fifo q \<Longrightarrow> fifo (settle k out now q)"
proof (cases "k < length (invocations q) \<and> \<not> settled (invocations q ! k)")
  case True
  assume "fifo q"
  then have "fifo (snd (processItem_end (inv_item (invocations q ! k))
      (startTime (invocations q ! k)) out now q))"
    by (rule fifo_processItem_end)
  then show ?thesis using True by (simp add: settle_def Let_def fifo_def)
next
  case False
  assume "fifo q"
  with False show ?thesis by (auto simp: settle_def)
qed

lemma fifo_finalize: "fifo q \<Longrightarrow> fifo (finalize k env q)"
proof (cases "k < length (invocations q) \<and> settled (invocations q ! k)")
  case True
  assume "fifo q"
  then have "fifo (release k q)" by (simp add: release_eq fifo_def)
  then show ?thesis using True by (simp add: finalize_def fifo_scheduleProcessing)
next
  case False
  assume "fifo q"
  with False show ?thesis by (auto simp: finalize_def)
qed

lemma fifo_head: "fifo q \<Longrightarrow> fifo (snd (workerLoop_head tdeq tstart p q))"
proof -
  assume "fifo q"
  then have d: "fifo (snd (dequeue tdeq q))" by (rule fifo_dequeue)
  then have "fifo (processItem_begin (fst (dequeue tdeq q)) (snd (dequeue tdeq q)))"
    by (simp add: processItem_begin_def fifo_def)
  with d \<open>fifo q\<close> show ?thesis by (simp add: workerLoop_head_def split_beta)
qed

lemma fifo_start_loop: "fifo q \<Longrightarrow> fifo (snd (start_loop n env (p, q)))"
proof (induction n arbitrary: env p q)
  case 0
  then show ?case by simp
next
  case (Suc n)
  have "fifo (snd (workerLoop_head (fst (env 0)) (snd (env 0)) p q))"
    using Suc.prems by (rule fifo_head)
  then show ?case by (simp add: split_beta Suc.IH)
qed

lemma fifo_start: "fifo q \<Longrightarrow> fifo (snd (start env (p, q)))"
proof -
  assume "fifo q"
  then have "fifo (emit (LogPoolStarting (pool_concurrency p)) q)"
    and "fifo (emit LogPoolAlreadyRunning q)"
    by (simp_all add: fifo_def)
  then show ?thesis by (simp add: start_def fifo_start_loop)
qed

lemma fifo_wake: "fifo q \<Longrightarrow> fifo (snd (worker_wake i tdeq tstart (p, q)))"
  using fifo_head [of q tdeq tstart p] by (simp add: worker_wake_def split_beta)

lemma fifo_worker_settle: "fifo q \<Longrightarrow> fifo (snd (worker_settle i out now (p, q)))"
  by (cases "workers p ! i") (simp_all add: worker_settle_def split_beta fifo_processItem_end)

lemma fifo_resume: "fifo q \<Longrightarrow> fifo (snd (worker_resume i tdeq tstart (p, q)))"
proof -
  assume q: "fifo q"
  then have "fifo (emit LogWorkerError q)" by (simp add: fifo_def)
  then have "fifo (snd (workerLoop_head tdeq tstart p (emit LogWorkerError q)))"
    by (rule fifo_head)
  then show ?thesis
    using q fifo_head [of q tdeq tstart p]
    by (cases "workers p ! i") (simp_all add: worker_resume_def Let_def split_beta)
qed

lemma fifo_step: "fifo q \<Longrightarrow> fifo (snd (step a (p, q)))"
  by (cases a)
    (simp_all add: fifo_enqueue fifo_dequeue processNext_def fifo_scheduleProcessing
      fifo_settle fifo_finalize fifo_start fifo_wake fifo_worker_settle fifo_resume)

lemma fifo_exec: "fifo (snd sys) \<Longrightarrow> fifo (snd (exec acts sys))"
proof (induction acts rule: rev_induct)
  case Nil
  then show ?case by simp
next
  case (snoc a acts)
  then show ?case using fifo_step [of "snd (exec acts sys)" a "fst (exec acts sys)"] by simp
qed

lemma serial_new_queue: "serial (new_queue 1 t)"
  by (simp add: serial_def new_queue_def in_progress_def)

lemma serial_admit: "serial q \<Longrightarrow> serial (admit it now (emit IncReceived q))"
  by (simp add: serial_def in_progress_def)

lemma serial_turn:
  assumes "schedule_guard s" "serial s"
  shows "serial (schedule_turn tk s)"
proof -
  obtain e rest where q: "queue s = e # rest"
    using assms(1) by (cases "queue s") (simp_all add: schedule_guard_def)
  have "fcard (processing s) = 0"
    using assms by (simp add: schedule_guard_def serial_def)
  then have "processing s = {||}" by simp
  then have "invocations s = []" using assms(2) by (simp add: serial_def)
  then show ?thesis
    using assms(2) schedule_turn_Cons [OF q, of tk] in_progress_turn [OF q, of tk] q
    by (simp add: serial_def)
qed

lemma serial_scheduleProcessing: "serial s \<Longrightarrow> serial (scheduleProcessing env s)"
proof (induction env s rule: scheduleProcessing.induct)
  case (1 env s)
  show ?case
  proof (cases "schedule_guard s")
    case True
    with 1 show ?thesis by (subst scheduleProcessing.simps) (simp add: serial_turn)
  next
    case False
    with 1 show ?thesis by (subst scheduleProcessing.simps) simp
  qed
qed

lemma serial_single:
  assumes "serial q" "k < length (invocations q)"
  shows "k = 0 \<and> invocations q = [invocations q ! 0]"
proof -
  have "length (invocations q) = 1" using assms by (simp add: serial_def)
  then show ?thesis using assms(2) by (cases "invocations q") simp_all
qed

lemma serial_settle: "serial q \<Longrightarrow> serial (settle k out now q)"
proof (cases "k < length (invocations q) \<and> \<not> settled (invocations q ! k)")
  case True
  assume s: "serial q"
  from True have k: "k < length (invocations q)" and u: "\<not> settled (invocations q ! k)" by simp_all
  from serial_single [OF s k] obtain i where i: "k = 0" "invocations q = [i]" by blast
  have ip: "in_progress q = [inv_item i]" "in_progress (settle k out now q) = []"
    using u i settle_enabled [OF k u, of out now] by (simp_all add: in_progress_def)
  have len: "length (invocations (settle k out now q)) = length (invocations q)"
    using settle_enabled [OF k u, of out now] by simp
  have nth: "invocations q ! k = i" using i by simp
  show ?thesis
    using s completed_settle [OF k u, of out now] ip len nth
    by (simp add: serial_def ids_settle)
next
  case False
  assume "serial q"
  with False show ?thesis by (auto simp: settle_def)
qed

lemma serial_release:
  assumes "serial q" "k < length (invocations q)" "settled (invocations q ! k)"
  shows "serial (release k q)"
proof -
  from serial_single [OF assms(1,2)] obtain i where i: "k = 0" "invocations q = [i]" by blast
  have "in_progress q = []" using assms(3) i by (simp add: in_progress_def)
  then show ?thesis
    using assms(1) i by (simp add: serial_def release_eq in_progress_def)
qed

lemma serial_dequeue: "serial q \<Longrightarrow> serial (snd (dequeue now q))"
  by (cases "queue q") (simp_all add: serial_def dequeue_Nil dequeue_Cons in_progress_def)

lemma serial_step:
  assumes "queue_only a" "serial q"
  shows "serial (snd (step a (p, q)))"
proof (cases a)
  case (Dequeue now)
  then show ?thesis using assms(2) by (simp add: serial_dequeue)
next
  case (Enqueue it now env)
  show ?thesis
  proof (cases "over_threshold q")
    case True
    then show ?thesis
      using assms(2) Enqueue by (simp add: enqueue_rejected serial_def in_progress_def)
  next
    case False
    then show ?thesis
      using Enqueue serial_scheduleProcessing [OF serial_admit [OF assms(2)]]
      by (simp add: enqueue_accepted)
  qed
next
  case (ProcessNext env)
  then show ?thesis using assms(2) by (simp add: processNext_def serial_scheduleProcessing)
next
  case (Settle k out now)
  then show ?thesis using assms(2) by (simp add: serial_settle)
next
  case (Finalize k env)
  show ?thesis
  proof (cases "k < length (invocations q) \<and> settled (invocations q ! k)")
    case True
    then have "serial (release k q)" using assms(2) by (simp add: serial_release)
    then have "serial (scheduleProcessing env (release k q))"
      by (rule serial_scheduleProcessing)
    then show ?thesis using True Finalize by (simp add: finalize_def)
  next
    case False
    then show ?thesis using assms(2) Finalize by (auto simp: finalize_def)
  qed
qed (use assms(1) in simp_all)

lemma serial_exec:
  "list_all queue_only acts \<Longrightarrow> serial (snd sys) \<Longrightarrow> serial (snd (exec acts sys))"
proof (induction acts rule: rev_induct)
  case Nil
  then show ?case by simp
next
  case (snoc a acts)
  then show ?case
    using serial_step [of a "snd (exec acts sys)" "fst (exec acts sys)"] by simp
qed

lemma fifo_new_queue: "fifo (new_queue c t)"
  by (simp add: fifo_def new_queue_def)

lemma ordered_dequeue: "ordered q \<Longrightarrow> ordered (snd (dequeue now q))"
  by (cases "queue q")
    (simp_all add: ordered_def dequeue_Nil dequeue_Cons subseq_rev_drop_many)

lemma ordered_turn: "schedule_guard s \<Longrightarrow> ordered s \<Longrightarrow> ordered (schedule_turn tk s)"
  by (cases "queue s") (simp_all add: ordered_def schedule_guard_def schedule_turn_Cons)

lemma ordered_scheduleProcessing: "ordered s \<Longrightarrow> ordered (scheduleProcessing env s)"
proof (induction env s rule: scheduleProcessing.induct)
  case (1 env s)
  show ?case
  proof (cases "schedule_guard s")
    case True
    with 1 show ?thesis by (subst scheduleProcessing.simps) (simp add: ordered_turn)
  next
    case False
    with 1 show ?thesis by (subst scheduleProcessing.simps) simp
  qed
qed

lemma ordered_enqueue: "ordered q \<Longrightarrow> ordered (snd (enqueue it now env q))"
proof (cases "over_threshold q")
  case True
  assume "ordered q"
  with True show ?thesis by (simp add: enqueue_rejected ordered_def)
next
  case False
  assume "ordered q"
  then have "ordered (admit it now (emit IncReceived q))" by (simp add: ordered_def)
  then show ?thesis using False by (simp add: enqueue_accepted ordered_scheduleProcessing)
qed

lemma ordered_processItem_end: "ordered q \<Longrightarrow> ordered (snd (processItem_end it st out now q))"
  by (cases out) (simp_all add: ordered_def processItem_end_def Let_def)

lemma ordered_settle: "ordered q \<Longrightarrow> ordered (settle k out now q)"
proof (cases "k < length (invocations q) \<and> \<not> settled (invocations q ! k)")
  case True
  assume "ordered q"
  then have "ordered (snd (processItem_end (inv_item (invocations q ! k))
      (startTime (invocations q ! k)) out now q))"
    by (rule ordered_processItem_end)
  then show ?thesis using True by (simp add: settle_def Let_def ordered_def)
next
  case False
  assume "ordered q"
  with False show ?thesis by (auto simp: settle_def)
qed

lemma ordered_finalize: "ordered q \<Longrightarrow> ordered (finalize k env q)"
proof (cases "k < length (invocations q) \<and> settled (invocations q ! k)")
  case True
  assume "ordered q"
  then have "ordered (release k q)" by (simp add: release_eq ordered_def)
  then show ?thesis using True by (simp add: finalize_def ordered_scheduleProcessing)
next
  case False
  assume "ordered q"
  with False show ?thesis by (auto simp: finalize_def)
qed

lemma ordered_head: "ordered q \<Longrightarrow> ordered (snd (workerLoop_head tdeq tstart p q))"
  by (cases "queue q")
    (simp_all add: ordered_def workerLoop_head_def dequeue_Nil dequeue_Cons
      processItem_begin_def subseq_rev_drop_many)

lemma ordered_start_loop: "ordered q \<Longrightarrow> ordered (snd (start_loop n env (p, q)))"
proof (induction n arbitrary: env p q)
  case 0
  then show ?case by simp
next
  case (Suc n)
  have "ordered (snd (workerLoop_head (fst (env 0)) (snd (env 0)) p q))"
    using Suc.prems by (rule ordered_head)
  then show ?case by (simp add: split_beta Suc.IH)
qed

lemma ordered_start: "ordered q \<Longrightarrow> ordered (snd (start env (p, q)))"
proof -
  assume "ordered q"
  then have "ordered (emit (LogPoolStarting (pool_concurrency p)) q)"
    and "ordered (emit LogPoolAlreadyRunning q)"
    by (simp_all add: ordered_def)
  then show ?thesis by (simp add: start_def ordered_start_loop)
qed

lemma ordered_wake: "ordered q \<Longrightarrow> ordered (snd (worker_wake i tdeq tstart (p, q)))"
  using ordered_head [of q tdeq tstart p] by (simp add: worker_wake_def split_beta)

lemma ordered_worker_settle: "ordered q \<Longrightarrow> ordered (snd (worker_settle i out now (p, q)))"
  by (cases "workers p ! i") (simp_all add: worker_settle_def split_beta ordered_processItem_end)

lemma ordered_resume: "ordered q \<Longrightarrow> ordered (snd (worker_resume i tdeq tstart (p, q)))"
proof -
  assume q: "ordered q"
  then have "ordered (emit LogWorkerError q)" by (simp add: ordered_def)
  then have "ordered (snd (workerLoop_head tdeq tstart p (emit LogWorkerError q)))"
    by (rule ordered_head)
  then show ?thesis
    using q ordered_head [of q tdeq tstart p]
    by (cases "workers p ! i") (simp_all add: worker_resume_def Let_def split_beta)
qed

lemma ordered_step: "ordered q \<Longrightarrow> ordered (snd (step a (p, q)))"
  by (cases a)
    (simp_all add: ordered_enqueue ordered_dequeue processNext_def ordered_scheduleProcessing
      ordered_settle ordered_finalize ordered_start ordered_wake ordered_worker_settle
      ordered_resume)

lemma ordered_exec: "ordered (snd sys) \<Longrightarrow> ordered (snd (exec acts sys))"
proof (induction acts rule: rev_induct)
  case Nil
  then show ?case by simp
next
  case (snoc a acts)
  then show ?case
    using ordered_step [of "snd (exec acts sys)" a "fst (exec acts sys)"] by simp
qed

lemma ordered_new_queue: "ordered (new_queue c t)"
  by (simp add: ordered_def new_queue_def)

lemma all_started_turn:
  "schedule_guard s \<Longrightarrow> all_started s \<Longrightarrow> all_started (schedule_turn tk s)"
  by (cases "queue s") (simp_all add: all_started_def schedule_guard_def schedule_turn_Cons)

lemma all_started_scheduleProcessing:
  "all_started s \<Longrightarrow> all_started (scheduleProcessing env s)"
proof (induction env s rule: scheduleProcessing.induct)
  case (1 env s)
  show ?case
  proof (cases "schedule_guard s")
    case True
    with 1 show ?thesis by (subst scheduleProcessing.simps) (simp add: all_started_turn)
  next
    case False
    with 1 show ?thesis by (subst scheduleProcessing.simps) simp
  qed
qed

lemma all_started_step:
  assumes "internal a" "all_started q"
  shows "all_started (snd (step a (p, q)))"
proof (cases a)
  case (Enqueue it now env)
  show ?thesis
  proof (cases "over_threshold q")
    case True
    then show ?thesis using assms(2) Enqueue by (simp add: enqueue_rejected all_started_def)
  next
    case False
    have "all_started (admit it now (emit IncReceived q))"
      using assms(2) by (simp add: all_started_def)
    then show ?thesis
      using False Enqueue by (simp add: enqueue_accepted all_started_scheduleProcessing)
  qed
next
  case (ProcessNext env)
  then show ?thesis
    using assms(2) by (simp add: processNext_def all_started_scheduleProcessing)
next
  case (Settle k out now)
  show ?thesis
  proof (cases "k < length (invocations q) \<and> \<not> settled (invocations q ! k)")
    case True
    then show ?thesis
      using assms(2) Settle settle_enabled [of k q out now]
      by (cases out) (simp_all add: all_started_def)
  next
    case False
    then show ?thesis using assms(2) Settle by (auto simp: settle_def)
  qed
next
  case (Finalize k env)
  show ?thesis
  proof (cases "k < length (invocations q) \<and> settled (invocations q ! k)")
    case True
    have "all_started (release k q)" using assms(2) by (simp add: release_eq all_started_def)
    then show ?thesis
      using True Finalize by (simp add: finalize_def all_started_scheduleProcessing)
  next
    case False
    then show ?thesis using assms(2) Finalize by (auto simp: finalize_def)
  qed
qed (use assms(1) in simp_all)

lemma all_started_exec:
  "list_all internal acts \<Longrightarrow> all_started (snd sys) \<Longrightarrow> all_started (snd (exec acts sys))"
proof (induction acts rule: rev_induct)
  case Nil
  then show ?case by simp
next
  case (snoc a acts)
  then show ?case
    using all_started_step [of a "snd (exec acts sys)" "fst (exec acts sys)"] by simp
qed

text \<open>
  What holds of the order. \<^verbatim>\<open>dequeue\<close> on an empty \<^verbatim>\<open>queue\<close> returns \<^verbatim>\<open>null\<close> and
  changes nothing; otherwise it removes the head and returns its item. In every run from
  a new queue the accepted items are, in order, the removed ones followed by the queued
  ones, and the processor is called with removed items in the order of their removal.
  With concurrency 1 and no worker pool at work, at most one chain is open and the items
  complete in the order in which the processor was called with them. Where only the
  dispatch loop removes items, the processor is called with every removed item.
\<close>

lemma dequeue_order:
  "(queue s = [] \<longrightarrow> dequeue now s = (Null, s))
   \<and> (queue s = e # rest \<longrightarrow>
        fst (dequeue now s) = item e
        \<and> queue (snd (dequeue now s)) = rest
        \<and> processing (snd (dequeue now s)) = processing s
        \<and> invocations (snd (dequeue now s)) = invocations s)
   \<and> enqueued (calls (snd (exec acts (p, new_queue c t)))) =
       dequeued (calls (snd (exec acts (p, new_queue c t))))
         @ map item (queue (snd (exec acts (p, new_queue c t))))
   \<and> subseq (started (calls (snd (exec acts (p, new_queue c t)))))
       (dequeued (calls (snd (exec acts (p, new_queue c t)))))
   \<and> (list_all queue_only acts \<longrightarrow>
        length (invocations (snd (exec acts (p, new_queue 1 t)))) \<le> 1
        \<and> started (calls (snd (exec acts (p, new_queue 1 t)))) =
            completed (calls (snd (exec acts (p, new_queue 1 t))))
              @ in_progress (snd (exec acts (p, new_queue 1 t))))
   \<and> (list_all internal acts \<longrightarrow>
        started (calls (snd (exec acts (p, new_queue c t)))) =
          dequeued (calls (snd (exec acts (p, new_queue c t)))))"
proof (intro conjI impI)
  assume "queue s = []"
  then show "dequeue now s = (Null, s)" by (rule dequeue_Nil)
next
  assume q: "queue s = e # rest"
  then show "fst (dequeue now s) = item e" by (simp add: dequeue_Cons)
  from q show "queue (snd (dequeue now s)) = rest" by simp
  show "processing (snd (dequeue now s)) = processing s"
    and "invocations (snd (dequeue now s)) = invocations s"
    by simp_all
next
  have "fifo (snd (exec acts (p, new_queue c t)))"
    using fifo_exec [of "(p, new_queue c t)" acts] by (simp add: fifo_new_queue)
  then show "enqueued (calls (snd (exec acts (p, new_queue c t)))) =
       dequeued (calls (snd (exec acts (p, new_queue c t))))
         @ map item (queue (snd (exec acts (p, new_queue c t))))"
    by (simp add: fifo_def)
next
  have "ordered (snd (exec acts (p, new_queue c t)))"
    using ordered_exec [of "(p, new_queue c t)" acts] by (simp add: ordered_new_queue)
  then show "subseq (started (calls (snd (exec acts (p, new_queue c t)))))
       (dequeued (calls (snd (exec acts (p, new_queue c t)))))"
    by (simp add: ordered_def)
next
  assume "list_all queue_only acts"
  then have s: "serial (snd (exec acts (p, new_queue 1 t)))"
    using serial_exec [of acts "(p, new_queue 1 t)"] by (simp add: serial_new_queue)
  then show "length (invocations (snd (exec acts (p, new_queue 1 t)))) \<le> 1"
    by (simp add: serial_def)
  from s show "started (calls (snd (exec acts (p, new_queue 1 t)))) =
            completed (calls (snd (exec acts (p, new_queue 1 t))))
              @ in_progress (snd (exec acts (p, new_queue 1 t)))"
    by (simp add: serial_def)
next
  assume "list_all internal acts"
  then have "all_started (snd (exec acts (p, new_queue c t)))"
    using all_started_exec [of acts "(p, new_queue c t)"]
    by (simp add: all_started_def new_queue_def)
  then show "started (calls (snd (exec acts (p, new_queue c t)))) =
          dequeued (calls (snd (exec acts (p, new_queue c t))))"
    by (simp add: all_started_def)
qed

lemma dequeue_order_two_items:
  "list_all queue_only two_items_run
   \<and> enqueued (calls (snd (exec two_items_run (idle_pool, new_queue 1 5)))) = [Val 1, Val 2]
   \<and> started (calls (snd (exec two_items_run (idle_pool, new_queue 1 5)))) = [Val 1, Val 2]
   \<and> completed (calls (snd (exec two_items_run (idle_pool, new_queue 1 5)))) = [Val 1, Val 2]
   \<and> in_progress (snd (exec two_items_run (idle_pool, new_queue 1 5))) = []"
  unfolding two_items_run_def by code_simp

text \<open>
  C6. On the queue the entry point builds, a queue of concurrency 1 handed to a started
  pool, the items are not processed one after the other: the queue dispatches the first
  item, the worker takes the second while the first is in progress, and the second
  completes first.
\<close>

theorem pool_completes_out_of_order:
  "concurrency (snd pooled_reordered) = 1
   \<and> enqueued (calls (snd pooled_reordered)) = [Val 7, Val 8]
   \<and> started (calls (snd pooled_reordered)) = [Val 7, Val 8]
   \<and> completed (calls (snd pooled_reordered)) = [Val 8]
   \<and> in_progress (snd pooled_reordered) = [Val 7]
   \<and> in_progress (snd pooled_run) = [Val 7]
   \<and> workers (fst pooled_run) = [Busy (Val 8) 0]"
  unfolding pooled_reordered_def pooled_run_def pooled_def by code_simp

end
